theory Spec2Isabelle
  imports Complex_Main "HOL-Library.Product_Lexorder" "HOL-Library.Multiset"
begin

section \<open>Data model\<close>

text \<open>
  The notebook \<^verbatim>\<open>Flag_LoadNumbers.ipynb\<close> works on two pandas frames: \<^verbatim>\<open>orig_df\<close>, one row
  per telemetry point, and \<^verbatim>\<open>group_intervals\<close>, one row per (contract, group). A frame is
  modelled as the list of its rows in row order; a column that the notebook adds to a frame
  is a field that the row record gains. Timestamps and durations are whole nanoseconds
  (\<^verbatim>\<open>datetime64[ns]\<close>, \<^verbatim>\<open>timedelta64[ns]\<close>); a null cell (\<^verbatim>\<open>NaN\<close>, \<^verbatim>\<open>NaT\<close>) is \<open>None\<close>.
\<close>

text \<open>
  A row as \<^verbatim>\<open>pd.read_csv\<close> delivers it. The timestamp cell is the outcome of the pandas
  parser on the cell's text: \<open>Some t\<close> when the text denotes the instant \<open>t\<close>, \<open>None\<close>
  when the parser cannot read it.
\<close>

record 'p csv_row =
  csv_contract_id :: int
  csv_msg_time :: "int option"
  csv_load_number :: "int option"
  csv_payload :: 'p

record 'p row =
  contract_id :: int
  msg_time :: int
  load_number :: "int option"
  payload :: 'p

record 'p drow = "'p row" +
  time_delta :: "int option"

record 'p grow = "'p drow" +
  group_number :: nat

text \<open>The user settings of the notebook.\<close>

record settings =
  contract_gap_threshold :: int
  load_gap_threshold :: int
  duration_threshold_min :: int
  duration_threshold_max :: int
  point_threshold_min :: int
  point_threshold_max :: int
  ping_rate_threshold :: rat

text \<open>The ten columns that \<^verbatim>\<open>group_intervals_out\<close> carries back to the points.\<close>

record flag_columns =
  invalid_load_duration_short :: nat
  invalid_load_duration_long :: nat
  invalid_load_point_count_low :: nat
  invalid_load_point_count_high :: nat
  invalid_load_reporting_gap :: nat
  invalid_load_ping_rate :: nat
  invalid_load_overlap :: nat
  invalid_load_noncontiguous :: nat
  invalid_load_duplicate :: nat
  invalid_load :: nat

text \<open>
  A row of \<^verbatim>\<open>group_intervals\<close>. The closed interval column \<^verbatim>\<open>interval\<close> is the pair
  of \<open>msg_time_min\<close> and \<open>msg_time_max\<close>. A flag column holds 0 until the cell of the
  notebook that computes it has run.
\<close>

record interval_row = flag_columns +
  contract :: int
  group_col :: nat
  load :: "int option"
  msg_time_min :: int
  msg_time_max :: int
  time_delta_avg :: "int option"
  total_points :: nat
  total_time :: int
  invalid_duplicate_loads :: "nat option"
  time_diff :: "int option"

record 'p out_row = "'p row" +
  flags :: "flag_columns option"

text \<open>The exceptions that end a run.\<close>

datatype error = ParseError | KeyError | TypeError | ZeroDivisionError

section \<open>Frame operations of pandas used by the notebook\<close>

text \<open>\<^verbatim>\<open>df.groupby(key)[col].shift(1)\<close>: for every row the value of \<^verbatim>\<open>col\<close> in the previous
  row of the same group, null for the first row of a group.\<close>

fun group_shift :: "('a \<Rightarrow> 'k) \<Rightarrow> ('a \<Rightarrow> 'v) \<Rightarrow> ('k \<Rightarrow> 'v option) \<Rightarrow> 'a list \<Rightarrow> 'v option list" where
  "group_shift key val prev [] = []"
| "group_shift key val prev (x # xs) =
     prev (key x) # group_shift key val (prev(key x \<mapsto> val x)) xs"

text \<open>\<^verbatim>\<open>df.groupby(key).apply(f)\<close> followed by \<^verbatim>\<open>reset_index(drop=True)\<close>: the groups are
  taken in ascending key order, each keeps its rows in frame order, and the results are
  concatenated.\<close>

definition groupby_apply :: "('a \<Rightarrow> 'k::linorder) \<Rightarrow> ('a list \<Rightarrow> 'b list) \<Rightarrow> 'a list \<Rightarrow> 'b list" where
  "groupby_apply key f df =
     concat (map (\<lambda>k. f (filter (\<lambda>r. key r = k) df)) (sort (remdups (map key df))))"

text \<open>Null-skipping reductions of a column: \<^verbatim>\<open>Series.min()\<close> and \<^verbatim>\<open>Series.mean()\<close>. The
  mean of a column of durations is a duration again, cut to whole nanoseconds; the deltas
  of a time-sorted frame are not negative, so the cut is the integer quotient.\<close>

definition dropna :: "'a option list \<Rightarrow> 'a list" where
  "dropna vs = [v. Some v \<leftarrow> vs]"

definition nanmin :: "int option list \<Rightarrow> int option" where
  "nanmin vs = (if dropna vs = [] then None else Some (Min (set (dropna vs))))"

definition nanmean :: "int option list \<Rightarrow> int option" where
  "nanmean vs =
     (if dropna vs = [] then None
      else Some (sum_list (dropna vs) div int (length (dropna vs))))"

section \<open>Step 1: preprocessing\<close>

text \<open>\<^verbatim>\<open>pd.to_datetime(orig_df['msg_time'])\<close> with the default \<^verbatim>\<open>errors='raise'\<close>: one cell
  that cannot be parsed raises, and no frame is produced. An empty cell, which the parser
  reads as \<^verbatim>\<open>NaT\<close> without raising, and a column with mixed UTC offsets are not values of
  the input type.\<close>

definition to_datetime :: "'p csv_row list \<Rightarrow> error + 'p row list" where
  "to_datetime raw =
     (if list_all (\<lambda>r. csv_msg_time r \<noteq> None) raw
      then Inr (map (\<lambda>r. \<lparr>contract_id = csv_contract_id r, msg_time = the (csv_msg_time r),
                          load_number = csv_load_number r, payload = csv_payload r\<rparr>) raw)
      else Inl ParseError)"

text \<open>\<^verbatim>\<open>sort_values('msg_time')\<close>. The result is time-sorted; the order among rows with
  equal timestamps is the sorting algorithm's (numpy's quicksort, which is not stable).
  This definition takes one such order, the one that keeps tied rows as they stand; what
  is proved of the groups of a contract below is proved for every order of the ties.\<close>

definition sort_values_msg_time :: "('p, 'm) row_scheme list \<Rightarrow> ('p, 'm) row_scheme list" where
  "sort_values_msg_time df = sort_key msg_time df"

text \<open>\<^verbatim>\<open>orig_df.groupby('contract_id')['msg_time'].diff()\<close>, then the deltas above
  \<^verbatim>\<open>contract_gap_threshold\<close> are set to null. Timestamps are taken to lie close enough for
  their difference to fit the 64 bits of a duration.\<close>

definition diff_cell :: "settings \<Rightarrow> int \<Rightarrow> int option \<Rightarrow> int option" where
  "diff_cell cfg t prev =
     (case prev of None \<Rightarrow> None
      | Some t0 \<Rightarrow> if t - t0 > contract_gap_threshold cfg then None else Some (t - t0))"

definition add_time_delta :: "settings \<Rightarrow> 'p row list \<Rightarrow> 'p drow list" where
  "add_time_delta cfg df =
     map2 (\<lambda>r prev. \<lparr>contract_id = contract_id r, msg_time = msg_time r,
                      load_number = load_number r, payload = payload r,
                      time_delta = diff_cell cfg (msg_time r) prev\<rparr>)
       df (group_shift contract_id msg_time Map.empty df)"

text \<open>\<^verbatim>\<open>Series.ne\<close>: a null is different from every value, another null included.\<close>

definition ne :: "int option \<Rightarrow> int option \<Rightarrow> bool" where
  "ne a b = (case a of None \<Rightarrow> True | Some x \<Rightarrow> (case b of None \<Rightarrow> True | Some y \<Rightarrow> x \<noteq> y))"

text \<open>\<^verbatim>\<open>load_number.ne(load_number.shift()).cumsum()\<close>: \<open>prev\<close> is the shifted cell (null
  for the first row), \<open>n\<close> the running sum.\<close>

fun ne_cumsum :: "int option \<Rightarrow> nat \<Rightarrow> int option list \<Rightarrow> nat list" where
  "ne_cumsum prev n [] = []"
| "ne_cumsum prev n (l # ls) =
     (if ne l prev then Suc n # ne_cumsum l (Suc n) ls else n # ne_cumsum l n ls)"

definition calculate_group_number :: "'p drow list \<Rightarrow> 'p grow list" where
  "calculate_group_number grp =
     map2 (\<lambda>r g. \<lparr>contract_id = contract_id r, msg_time = msg_time r,
                   load_number = load_number r, payload = payload r,
                   time_delta = time_delta r, group_number = g\<rparr>)
       grp (ne_cumsum None 0 (map load_number grp))"

text \<open>\<^verbatim>\<open>orig_df\<close> as it stands after Step 1.\<close>

definition points :: "settings \<Rightarrow> 'p row list \<Rightarrow> 'p grow list" where
  "points cfg df =
     groupby_apply contract_id calculate_group_number
       (sort_values_msg_time (add_time_delta cfg (sort_values_msg_time df)))"

section \<open>Step 2: load group intervals\<close>

text \<open>The body of the loop over \<^verbatim>\<open>orig_df.groupby(['contract_id', 'group_number'])\<close>,
  with the derived column \<^verbatim>\<open>total_time\<close>. A group of the loop is never empty.\<close>

definition make_interval :: "int \<times> nat \<Rightarrow> 'p grow list \<Rightarrow> interval_row" where
  "make_interval idx df =
     \<lparr>invalid_load_duration_short = 0, invalid_load_duration_long = 0,
      invalid_load_point_count_low = 0, invalid_load_point_count_high = 0,
      invalid_load_reporting_gap = 0, invalid_load_ping_rate = 0,
      invalid_load_overlap = 0, invalid_load_noncontiguous = 0,
      invalid_load_duplicate = 0, invalid_load = 0,
      contract = fst idx, group_col = snd idx,
      load = nanmin (map load_number df),
      msg_time_min = Min (set (map msg_time df)),
      msg_time_max = Max (set (map msg_time df)),
      time_delta_avg = nanmean (map time_delta df),
      total_points = length df,
      total_time = Max (set (map msg_time df)) - Min (set (map msg_time df)),
      invalid_duplicate_loads = None, time_diff = None\<rparr>"

definition group_key :: "'p grow \<Rightarrow> int \<times> nat" where
  "group_key r = (contract_id r, group_number r)"

definition make_intervals :: "'p grow list \<Rightarrow> interval_row list" where
  "make_intervals df =
     map (\<lambda>idx. make_interval idx (filter (\<lambda>r. group_key r = idx) df))
       (sort (remdups (map group_key df)))"

section \<open>Step 3: outlier flags\<close>

text \<open>Duration too short or too long.\<close>

definition flag_duration :: "settings \<Rightarrow> interval_row list \<Rightarrow> interval_row list" where
  "flag_duration cfg ivs =
     map (\<lambda>iv. iv\<lparr>invalid_load_duration_short :=
                       (if total_time iv < duration_threshold_min cfg then 1 else 0),
                    invalid_load_duration_long :=
                       (if total_time iv > duration_threshold_max cfg then 1 else 0)\<rparr>) ivs"

text \<open>Point count too low or too high.\<close>

definition flag_point_count :: "settings \<Rightarrow> interval_row list \<Rightarrow> interval_row list" where
  "flag_point_count cfg ivs =
     map (\<lambda>iv. iv\<lparr>invalid_load_point_count_low :=
                       (if int (total_points iv) < point_threshold_min cfg then 1 else 0),
                    invalid_load_point_count_high :=
                       (if int (total_points iv) > point_threshold_max cfg then 1 else 0)\<rparr>) ivs"

text \<open>\<^verbatim>\<open>np.where(time_delta_avg > load_gap_threshold, 1, 0)\<close>. The column
  \<^verbatim>\<open>time_delta_avg\<close> was built from a list of cells: with at least one duration in it, it
  is a column of durations, and the comparison with a null cell is false; with null cells
  only, pandas types it \<^verbatim>\<open>datetime64[ns]\<close>, and the comparison with the threshold, a
  duration, raises \<^verbatim>\<open>TypeError\<close>. A frame without rows does not come as far as this
  cell.\<close>

definition flag_reporting_gap :: "settings \<Rightarrow> interval_row list \<Rightarrow> error + interval_row list" where
  "flag_reporting_gap cfg ivs =
     (if ivs \<noteq> [] \<and> list_all (\<lambda>iv. time_delta_avg iv = None) ivs then Inl TypeError
      else Inr (map (\<lambda>iv. iv\<lparr>invalid_load_reporting_gap :=
                       (case time_delta_avg iv of None \<Rightarrow> 0
                        | Some a \<Rightarrow> if a > load_gap_threshold cfg then 1 else 0)\<rparr>) ivs))"

text \<open>\<^verbatim>\<open>Timedelta.total_seconds()\<close>: the seconds of a duration without its nanosecond
  part. The durations it is applied to are not negative.\<close>

definition total_seconds :: "int \<Rightarrow> rat" where
  "total_seconds d = of_int (d div 1000) / 1000000"

text \<open>\<^verbatim>\<open>flag_invalid_ping_rates(row, ping_rate_threshold)\<close>. The division is the only
  operation of the function that can fail. \<^verbatim>\<open>NaT.total_seconds()\<close> is \<^verbatim>\<open>nan\<close>, and no
  comparison with \<^verbatim>\<open>nan\<close> holds, so a null average takes the \<^verbatim>\<open>else\<close> branch. The
  arithmetic is exact here; the notebook computes in 64-bit floating point.\<close>

definition flag_invalid_ping_rates :: "interval_row \<Rightarrow> rat \<Rightarrow> error + nat" where
  "flag_invalid_ping_rates row thr =
     (if total_points row = 0 then Inl ZeroDivisionError
      else
        (let est_ping_rate = total_seconds (total_time row) / of_nat (total_points row)
         in case time_delta_avg row of
              None \<Rightarrow> Inr 0
            | Some a \<Rightarrow>
                (let time_delta_seconds = total_seconds a
                 in if \<bar>est_ping_rate - time_delta_seconds\<bar> > thr then Inr 1 else Inr 0)))"

text \<open>\<^verbatim>\<open>df.apply(f, axis=1)\<close>: the first row on which \<open>f\<close> raises ends the call.\<close>

fun apply_rows :: "('a \<Rightarrow> error + 'b) \<Rightarrow> 'a list \<Rightarrow> error + 'b list" where
  "apply_rows f [] = Inr []"
| "apply_rows f (x # xs) =
     (case f x of Inl e \<Rightarrow> Inl e
      | Inr v \<Rightarrow> (case apply_rows f xs of Inl e \<Rightarrow> Inl e | Inr vs \<Rightarrow> Inr (v # vs)))"

definition flag_ping_rate :: "settings \<Rightarrow> interval_row list \<Rightarrow> error + interval_row list" where
  "flag_ping_rate cfg ivs =
     (case apply_rows (\<lambda>row. flag_invalid_ping_rates row (ping_rate_threshold cfg)) ivs of
        Inl e \<Rightarrow> Inl e
      | Inr col \<Rightarrow> Inr (map2 (\<lambda>iv f. iv\<lparr>invalid_load_ping_rate := f\<rparr>) ivs col))"

text \<open>\<^verbatim>\<open>Series.duplicated(keep=False)\<close>: true for every cell whose value occurs more
  than once; nulls count as equal to each other here.\<close>

definition duplicated :: "'a list \<Rightarrow> bool list" where
  "duplicated vs = map (\<lambda>v. 2 \<le> count_list vs v) vs"

text \<open>\<^verbatim>\<open>flag_duplicated_load_numbers(df)\<close>: the masked rows get 1 in the column
  \<^verbatim>\<open>invalid_duplicate_loads\<close>, which is null in a row that was never masked. The cell
  around it first sets \<^verbatim>\<open>invalid_load_duplicate\<close> to 0 and then applies the function to
  every contract; the notebook holds this cell twice.\<close>

definition flag_duplicated_load_numbers :: "interval_row list \<Rightarrow> interval_row list" where
  "flag_duplicated_load_numbers df =
     map2 (\<lambda>r mask. if mask then r\<lparr>invalid_duplicate_loads := Some 1\<rparr> else r)
       df (duplicated (map load df))"

definition flag_duplicate :: "interval_row list \<Rightarrow> interval_row list" where
  "flag_duplicate ivs =
     groupby_apply contract flag_duplicated_load_numbers
       (map (\<lambda>iv. iv\<lparr>invalid_load_duplicate := 0\<rparr>) ivs)"

text \<open>\<^verbatim>\<open>Interval.overlaps\<close> for intervals closed on both sides.\<close>

definition overlaps :: "interval_row \<Rightarrow> interval_row \<Rightarrow> bool" where
  "overlaps a b = (msg_time_min a \<le> msg_time_max b \<and> msg_time_min b \<le> msg_time_max a)"

text \<open>\<^verbatim>\<open>check_overlaps(df)\<close>: the two nested loops over the rows of one contract. The
  row labels are unique after \<^verbatim>\<open>reset_index\<close>, so two rows have different labels exactly
  when they stand at different positions.\<close>

definition check_overlaps :: "interval_row list \<Rightarrow> interval_row list" where
  "check_overlaps df =
     map (\<lambda>i. if list_ex (\<lambda>j. i \<noteq> j \<and> overlaps (df ! i) (df ! j)) [0..<length df]
               then (df ! i)\<lparr>invalid_load_overlap := 1\<rparr> else df ! i)
       [0..<length df]"

definition flag_overlap :: "interval_row list \<Rightarrow> interval_row list" where
  "flag_overlap ivs =
     groupby_apply contract check_overlaps (map (\<lambda>iv. iv\<lparr>invalid_load_overlap := 0\<rparr>) ivs)"

text \<open>The cell that looks for non-contiguous loads.
  \<^verbatim>\<open>sort_values(['contract', 'interval'])\<close> orders intervals by their left end, then by
  their right end; \<^verbatim>\<open>time_diff\<close> is the distance to \<^verbatim>\<open>msg_time_max\<close> of the previous row of
  the same contract, null for the first row of a contract, and a comparison with a null
  cell is false.\<close>

definition interval_key :: "interval_row \<Rightarrow> int \<times> int \<times> int" where
  "interval_key iv = (contract iv, msg_time_min iv, msg_time_max iv)"

definition noncontiguous_cell :: "settings \<Rightarrow> interval_row \<Rightarrow> int option \<Rightarrow> interval_row" where
  "noncontiguous_cell cfg iv prev =
     (let d = (case prev of None \<Rightarrow> None | Some m \<Rightarrow> Some \<bar>msg_time_min iv - m\<bar>)
      in iv\<lparr>time_diff := d,
            invalid_load_noncontiguous :=
              (case d of None \<Rightarrow> 0 | Some x \<Rightarrow> if x > load_gap_threshold cfg then 1 else 0)\<rparr>)"

definition flag_noncontiguous :: "settings \<Rightarrow> interval_row list \<Rightarrow> interval_row list" where
  "flag_noncontiguous cfg ivs =
     (let df = sort_key interval_key ivs
      in map2 (noncontiguous_cell cfg) df (group_shift contract msg_time_max Map.empty df))"

text \<open>\<^verbatim>\<open>group_intervals[outlier_columns].any(axis=1).astype(int)\<close>.\<close>

definition outlier_columns :: "interval_row \<Rightarrow> nat list" where
  "outlier_columns iv =
     [invalid_load_duration_short iv, invalid_load_duration_long iv,
      invalid_load_point_count_low iv, invalid_load_point_count_high iv,
      invalid_load_reporting_gap iv, invalid_load_ping_rate iv,
      invalid_load_overlap iv, invalid_load_noncontiguous iv, invalid_load_duplicate iv]"

definition flag_invalid_load :: "interval_row list \<Rightarrow> interval_row list" where
  "flag_invalid_load ivs =
     map (\<lambda>iv. iv\<lparr>invalid_load := (if list_ex (\<lambda>v. v \<noteq> 0) (outlier_columns iv) then 1 else 0)\<rparr>) ivs"

text \<open>The flag cells of the notebook in the order in which they stand.\<close>

definition flag_intervals :: "settings \<Rightarrow> interval_row list \<Rightarrow> error + interval_row list" where
  "flag_intervals cfg ivs =
     (case flag_reporting_gap cfg (flag_point_count cfg (flag_duration cfg ivs)) of
        Inl e \<Rightarrow> Inl e
      | Inr gaps \<Rightarrow>
          (case flag_ping_rate cfg gaps of
             Inl e \<Rightarrow> Inl e
           | Inr ivs' \<Rightarrow>
               Inr (flag_invalid_load (flag_duplicate (flag_noncontiguous cfg
                      (flag_overlap (flag_duplicate ivs')))))))"

section \<open>Step 4: rejoining the intervals with the points\<close>

text \<open>\<^verbatim>\<open>group_intervals_out\<close>: the key \<^verbatim>\<open>msg_time = msg_time_min\<close> and the ten flag
  columns, sorted by the key.\<close>

definition group_intervals_out :: "interval_row list \<Rightarrow> (int \<times> flag_columns) list" where
  "group_intervals_out ivs =
     map (\<lambda>iv. (msg_time_min iv, flag_columns.truncate iv)) (sort_key msg_time_min ivs)"

text \<open>\<^verbatim>\<open>pd.merge_asof(left, right, on='msg_time')\<close>, direction backward: a left row gets
  the last right row whose key is at most its own, and nulls when there is none.\<close>

definition asof_lookup :: "(int \<times> 'v) list \<Rightarrow> int \<Rightarrow> 'v option" where
  "asof_lookup right t =
     (case filter (\<lambda>kv. fst kv \<le> t) right of [] \<Rightarrow> None | x # xs \<Rightarrow> Some (snd (last (x # xs))))"

definition merge_asof :: "'p grow list \<Rightarrow> (int \<times> flag_columns) list \<Rightarrow> ('p grow \<times> flag_columns option) list" where
  "merge_asof left right = map (\<lambda>r. (r, asof_lookup right (msg_time r))) left"

text \<open>\<^verbatim>\<open>orig_df_out.drop(columns=['group_number', 'time_delta'])\<close>.\<close>

definition drop_columns :: "('p grow \<times> flag_columns option) list \<Rightarrow> 'p out_row list" where
  "drop_columns df =
     map (\<lambda>rf. \<lparr>contract_id = contract_id (fst rf), msg_time = msg_time (fst rf),
                 load_number = load_number (fst rf), payload = payload (fst rf),
                 flags = snd rf\<rparr>) df"

definition backfill :: "'p grow list \<Rightarrow> interval_row list \<Rightarrow> 'p out_row list" where
  "backfill orig_df group_intervals =
     drop_columns (merge_asof (sort_values_msg_time orig_df) (group_intervals_out group_intervals))"

text \<open>The notebook from the rows read to the frame that is handed to \<^verbatim>\<open>to_csv\<close>. On a
  frame without rows \<^verbatim>\<open>groupby('contract_id').apply\<close> returns a frame without the column
  \<^verbatim>\<open>group_number\<close>, and the loop over \<^verbatim>\<open>groupby(['contract_id', 'group_number'])\<close> raises
  \<^verbatim>\<open>KeyError\<close>.\<close>

definition run :: "settings \<Rightarrow> 'p csv_row list \<Rightarrow> error + 'p out_row list" where
  "run cfg raw =
     (case to_datetime raw of
        Inl e \<Rightarrow> Inl e
      | Inr df \<Rightarrow>
          if points cfg df = [] then Inl KeyError
          else
            (case flag_intervals cfg (make_intervals (points cfg df)) of
               Inl e \<Rightarrow> Inl e
             | Inr group_intervals \<Rightarrow> Inr (backfill (points cfg df) group_intervals)))"

section \<open>Example inputs\<close>

definition example_settings :: settings where
  "example_settings =
     \<lparr>contract_gap_threshold = 1000, load_gap_threshold = 20, duration_threshold_min = 0,
      duration_threshold_max = 1000, point_threshold_min = 2, point_threshold_max = 100,
      ping_rate_threshold = 1\<rparr>"

definition point :: "int \<Rightarrow> int \<Rightarrow> int \<Rightarrow> unit row" where
  "point c t l = \<lparr>contract_id = c, msg_time = t, load_number = Some l, payload = ()\<rparr>"

text \<open>One contract whose labels run 1, 1, 2, 2, 1, 1 in time order.\<close>

definition example_repeat :: "unit row list" where
  "example_repeat = [point 7 0 1, point 7 5 1, point 7 10 2, point 7 15 2, point 7 20 1, point 7 25 1]"

text \<open>A single record.\<close>

definition example_single :: "unit row list" where
  "example_single = [point 7 0 1]"

text \<open>Two contracts whose records interleave in time.\<close>

definition example_two_contracts :: "unit row list" where
  "example_two_contracts = [point 1 0 1, point 2 5 1, point 1 10 1]"

text \<open>One contract with a pause of 35 between its two loads.\<close>

definition example_gap :: "unit row list" where
  "example_gap = [point 7 0 1, point 7 5 1, point 7 40 2, point 7 45 2]"

text \<open>One contract whose label changes between two records with the same timestamp.\<close>

definition example_tie :: "unit row list" where
  "example_tie = [point 7 0 1, point 7 5 1, point 7 5 2, point 7 9 2]"

text \<open>The same inputs as rows of the file, and one with a timestamp that cannot be parsed.\<close>

definition csv_point :: "int \<Rightarrow> int \<Rightarrow> int \<Rightarrow> unit csv_row" where
  "csv_point c t l = \<lparr>csv_contract_id = c, csv_msg_time = Some t, csv_load_number = Some l, csv_payload = ()\<rparr>"

definition example_two_contracts_csv :: "unit csv_row list" where
  "example_two_contracts_csv = [csv_point 1 0 1, csv_point 2 5 1, csv_point 1 10 1]"

definition example_unparseable :: "unit csv_row list" where
  "example_unparseable =
     [csv_point 7 0 1, csv_point 7 5 1,
      \<lparr>csv_contract_id = 7, csv_msg_time = None, csv_load_number = Some 1, csv_payload = ()\<rparr>]"

section \<open>Properties of the frame operations\<close>

lemma concat_map_single:
  "distinct ks \<Longrightarrow> (\<And>k. k \<in> set ks \<Longrightarrow> k \<noteq> c \<Longrightarrow> h k = []) \<Longrightarrow>
     concat (map h ks) = (if c \<in> set ks then h c else [])"
  by (induction ks) auto

lemma filter_groupby_apply:
  assumes keep: "\<And>grp. map key' (f grp) = map key grp"
  shows "filter (\<lambda>y. key' y = c) (groupby_apply key f df) = f (filter (\<lambda>x. key x = c) df)"
proof -
  let ?ks = "sort (remdups (map key df))"
  let ?h = "\<lambda>k. filter (\<lambda>y. key' y = c) (f (filter (\<lambda>r. key r = k) df))"
  have chunk: "set (map key' (f (filter (\<lambda>r. key r = k) df))) \<subseteq> {k}" for k
    unfolding keep by auto
  have other: "?h k = []" if "k \<noteq> c" for k
    using chunk [of k] that by (auto simp: filter_empty_conv)
  have same: "?h c = f (filter (\<lambda>r. key r = c) df)"
    using chunk [of c] by (auto simp: filter_id_conv)
  have nil: "f [] = []"
    using keep [of "[]"] by simp
  have "filter (\<lambda>y. key' y = c) (groupby_apply key f df) = concat (map ?h ?ks)"
    by (simp add: groupby_apply_def filter_concat comp_def)
  also have "\<dots> = (if c \<in> set ?ks then ?h c else [])"
    by (rule concat_map_single) (simp_all add: other)
  also have "\<dots> = f (filter (\<lambda>x. key x = c) df)"
  proof (cases "c \<in> set ?ks")
    case True
    then show ?thesis by (simp add: same)
  next
    case False
    then have "filter (\<lambda>x. key x = c) df = []"
      by (auto simp: filter_empty_conv)
    with False show ?thesis by (simp add: nil)
  qed
  finally show ?thesis .
qed

lemma length_group_shift: "length (group_shift key val prev xs) = length xs"
  by (induction xs arbitrary: prev) auto

lemma length_ne_cumsum: "length (ne_cumsum prev n ls) = length ls"
  by (induction ls arbitrary: prev n) auto

lemma sort_key_map: "sort_key f (map g xs) = map g (sort_key (\<lambda>x. f (g x)) xs)"
proof (induction xs)
  case Nil
  show ?case by simp
next
  case (Cons x xs)
  have ins: "insort_key f (g x) (map g ys) = map g (insort_key (\<lambda>x. f (g x)) x ys)" for ys
    by (induction ys) auto
  show ?case by (simp add: Cons.IH ins)
qed

lemma truncate_add_time_delta: "map row.truncate (add_time_delta cfg df) = df"
  by (simp add: add_time_delta_def map_zip_map2 row.truncate_def list_eq_iff_nth_eq length_group_shift)

lemma truncate_calculate_group_number: "map row.truncate (calculate_group_number grp) = map row.truncate grp"
  by (simp add: calculate_group_number_def row.truncate_def list_eq_iff_nth_eq length_ne_cumsum)

lemma contract_calculate_group_number: "map contract_id (calculate_group_number grp) = map contract_id grp"
  by (simp add: calculate_group_number_def list_eq_iff_nth_eq length_ne_cumsum)

lemma length_calculate_group_number: "length (calculate_group_number grp) = length grp"
  by (simp add: calculate_group_number_def length_ne_cumsum)

lemma group_number_calculate_group_number:
  "map group_number (calculate_group_number grp) = ne_cumsum None 0 (map load_number grp)"
  by (simp add: calculate_group_number_def list_eq_iff_nth_eq length_ne_cumsum)

lemma truncate_sort: "map row.truncate (sort_values_msg_time df) = sort_values_msg_time (map row.truncate df)"
  by (simp add: sort_values_msg_time_def sort_key_map row.truncate_def)

lemma sort_values_idem: "sort_values_msg_time (sort_values_msg_time df) = sort_values_msg_time df"
  by (simp add: sort_values_msg_time_def sort_key_id_if_sorted)

lemma contract_points:
  "filter (\<lambda>r. contract_id r = c) (points cfg df) =
     calculate_group_number (filter (\<lambda>r. contract_id r = c)
        (sort_values_msg_time (add_time_delta cfg (sort_values_msg_time df))))"
  unfolding points_def
  by (rule filter_groupby_apply) (rule contract_calculate_group_number)

lemma filter_truncate: "filter (\<lambda>r. contract_id r = c) (map row.truncate df) = map row.truncate (filter (\<lambda>r. contract_id r = c) df)"
  by (simp add: filter_map comp_def row.truncate_def)

lemma truncate_contract_points:
  "map row.truncate (filter (\<lambda>r. contract_id r = c) (points cfg df)) =
     filter (\<lambda>r. contract_id r = c) (sort_values_msg_time df)"
  by (simp add: contract_points truncate_calculate_group_number flip: filter_truncate, simp add: truncate_sort truncate_add_time_delta sort_values_idem)



lemma ne_cumsum_hd: "ls \<noteq> [] \<Longrightarrow> hd (ne_cumsum None 0 ls) = 1"
  by (cases ls) (simp_all add: ne_def split: option.splits)

lemma ne_cumsum_step:
  "Suc i < length ls \<Longrightarrow>
     ne_cumsum prev n ls ! Suc i =
       (if ne (ls ! Suc i) (ls ! i) then Suc (ne_cumsum prev n ls ! i) else ne_cumsum prev n ls ! i)"
proof (induction ls arbitrary: prev n i)
  case Nil
  then show ?case by simp
next
  case (Cons l ls)
  show ?case
  proof (cases i)
    case 0
    with Cons.prems obtain l' ls' where "ls = l' # ls'"
      by (cases ls) auto
    with 0 show ?thesis by simp
  next
    case (Suc j)
    with Cons.prems have "Suc j < length ls" by simp
    from Cons.IH [OF this] Suc show ?thesis by simp
  qed
qed

lemma sorted_ne_cumsum: "sorted (ne_cumsum prev n ls)"
  by (simp add: sorted_iff_nth_Suc length_ne_cumsum ne_cumsum_step)

lemma ne_conv: "ne a b \<longleftrightarrow> a = None \<or> b = None \<or> a \<noteq> b"
  by (auto simp: ne_def split: option.splits)

lemma contract_segmentation:
  fixes cfg :: settings and df :: "'p row list" and c :: int
  defines "grp \<equiv> filter (\<lambda>r. contract_id r = c) (points cfg df)"
  shows "map row.truncate grp = filter (\<lambda>r. contract_id r = c) (sort_values_msg_time df)"
    and "sorted (map msg_time grp)"
    and "grp \<noteq> [] \<longrightarrow> group_number (hd grp) = 1"
    and "\<forall>i. Suc i < length grp \<longrightarrow>
           group_number (grp ! Suc i) =
             (if load_number (grp ! Suc i) = None \<or> load_number (grp ! i) = None
                 \<or> load_number (grp ! Suc i) \<noteq> load_number (grp ! i)
              then group_number (grp ! i) + 1 else group_number (grp ! i))"
    and "sorted (map group_number grp)"
proof -
  let ?src = "filter (\<lambda>r. contract_id r = c)
                (sort_values_msg_time (add_time_delta cfg (sort_values_msg_time df)))"
  have grp: "grp = calculate_group_number ?src"
    unfolding grp_def by (rule contract_points)
  have gn: "map group_number grp = ne_cumsum None 0 (map load_number ?src)"
    unfolding grp by (rule group_number_calculate_group_number)
  have len: "length grp = length ?src"
    unfolding grp by (rule length_calculate_group_number)
  have ld: "map load_number grp = map load_number ?src"
    unfolding grp by (simp add: calculate_group_number_def list_eq_iff_nth_eq length_ne_cumsum)
  show tr: "map row.truncate grp = filter (\<lambda>r. contract_id r = c) (sort_values_msg_time df)"
    unfolding grp_def by (rule truncate_contract_points)
  have "map msg_time grp = map msg_time (map row.truncate grp)"
    by (simp add: row.truncate_def)
  also have "\<dots> = map msg_time (filter (\<lambda>r. contract_id r = c) (sort_key msg_time df))"
    by (simp only: tr sort_values_msg_time_def)
  finally show "sorted (map msg_time grp)"
    by (simp add: sorted_filter)
  show "grp \<noteq> [] \<longrightarrow> group_number (hd grp) = 1"
  proof
    assume ne: "grp \<noteq> []"
    then have "map load_number ?src \<noteq> []" using len by auto
    then have "hd (map group_number grp) = 1"
      unfolding gn by (rule ne_cumsum_hd)
    with ne show "group_number (hd grp) = 1" by (simp add: hd_map)
  qed
  show "\<forall>i. Suc i < length grp \<longrightarrow>
           group_number (grp ! Suc i) =
             (if load_number (grp ! Suc i) = None \<or> load_number (grp ! i) = None
                 \<or> load_number (grp ! Suc i) \<noteq> load_number (grp ! i)
              then group_number (grp ! i) + 1 else group_number (grp ! i))"
  proof (intro allI impI)
    fix i assume i: "Suc i < length grp"
    then have i': "Suc i < length (map load_number grp)" by simp
    have nth: "group_number (grp ! k) = ne_cumsum None 0 (map load_number grp) ! k" if "k < length grp" for k
      using that gn ld by (metis nth_map)
    have "ne_cumsum None 0 (map load_number grp) ! Suc i =
            (if ne (map load_number grp ! Suc i) (map load_number grp ! i)
             then Suc (ne_cumsum None 0 (map load_number grp) ! i)
             else ne_cumsum None 0 (map load_number grp) ! i)"
      by (rule ne_cumsum_step [OF i'])
    with i show "group_number (grp ! Suc i) =
             (if load_number (grp ! Suc i) = None \<or> load_number (grp ! i) = None
                 \<or> load_number (grp ! Suc i) \<noteq> load_number (grp ! i)
              then group_number (grp ! i) + 1 else group_number (grp ! i))"
      by (simp add: nth ne_conv)
  qed
  show "sorted (map group_number grp)"
    unfolding gn by (rule sorted_ne_cumsum)
qed

section \<open>Segmentation\<close>

lemma truncate_group_numbers: "map drow.truncate (calculate_group_number src) = src"
  by (rule nth_equalityI)
     (simp_all add: calculate_group_number_def drow.truncate_def length_ne_cumsum)

lemma load_number_calculate_group_number:
  "map load_number (calculate_group_number src) = map load_number src"
  by (rule nth_equalityI) (simp_all add: calculate_group_number_def length_ne_cumsum)

lemma msg_time_calculate_group_number:
  "map msg_time (calculate_group_number src) = map msg_time src"
  by (rule nth_equalityI) (simp_all add: calculate_group_number_def length_ne_cumsum)

lemma group_number_rule:
  fixes src :: "'p drow list"
  defines "grp \<equiv> calculate_group_number src"
  shows "grp \<noteq> [] \<longrightarrow> group_number (hd grp) = 1"
    and "\<forall>i. Suc i < length grp \<longrightarrow>
           group_number (grp ! Suc i) =
             (if load_number (grp ! Suc i) = None \<or> load_number (grp ! i) = None
                 \<or> load_number (grp ! Suc i) \<noteq> load_number (grp ! i)
              then group_number (grp ! i) + 1 else group_number (grp ! i))"
    and "sorted (map group_number grp)"
proof -
  have gn: "map group_number grp = ne_cumsum None 0 (map load_number src)"
    unfolding grp_def by (rule group_number_calculate_group_number)
  have len: "length grp = length src"
    unfolding grp_def by (rule length_calculate_group_number)
  have ld: "map load_number grp = map load_number src"
    unfolding grp_def by (rule load_number_calculate_group_number)
  show "grp \<noteq> [] \<longrightarrow> group_number (hd grp) = 1"
  proof
    assume ne: "grp \<noteq> []"
    then have "map load_number src \<noteq> []" using len by auto
    then have "hd (map group_number grp) = 1"
      unfolding gn by (rule ne_cumsum_hd)
    with ne show "group_number (hd grp) = 1" by (simp add: hd_map)
  qed
  show "\<forall>i. Suc i < length grp \<longrightarrow>
           group_number (grp ! Suc i) =
             (if load_number (grp ! Suc i) = None \<or> load_number (grp ! i) = None
                 \<or> load_number (grp ! Suc i) \<noteq> load_number (grp ! i)
              then group_number (grp ! i) + 1 else group_number (grp ! i))"
  proof (intro allI impI)
    fix i assume i: "Suc i < length grp"
    then have i': "Suc i < length (map load_number grp)" by simp
    have nth: "group_number (grp ! k) = ne_cumsum None 0 (map load_number grp) ! k"
      if "k < length grp" for k
    proof -
      have "map group_number grp ! k = ne_cumsum None 0 (map load_number grp) ! k"
        by (simp only: gn ld)
      with that show ?thesis by simp
    qed
    have "ne_cumsum None 0 (map load_number grp) ! Suc i =
            (if ne (map load_number grp ! Suc i) (map load_number grp ! i)
             then Suc (ne_cumsum None 0 (map load_number grp) ! i)
             else ne_cumsum None 0 (map load_number grp) ! i)"
      by (rule ne_cumsum_step [OF i'])
    with i show "group_number (grp ! Suc i) =
             (if load_number (grp ! Suc i) = None \<or> load_number (grp ! i) = None
                 \<or> load_number (grp ! Suc i) \<noteq> load_number (grp ! i)
              then group_number (grp ! i) + 1 else group_number (grp ! i))"
      by (simp add: nth ne_conv)
  qed
  show "sorted (map group_number grp)"
    unfolding gn by (rule sorted_ne_cumsum)
qed

text \<open>
  C3. Let \<open>df\<close> be the frame on which the notebook calls
  \<^verbatim>\<open>groupby('contract_id').apply(calculate_group_number)\<close>, with its rows in whatever order
  the sort has left them, and let \<open>grp\<close> be the rows of one contract in the result. They
  are the rows of that contract in \<open>df\<close>, in the order of \<open>df\<close>, and in time order if \<open>df\<close>
  is. The first of them has group number 1; a later one has the group number of its
  predecessor plus one if the two load labels differ, where a null label differs from every
  label and from another null, and the same group number otherwise; the group numbers
  never decrease along \<open>grp\<close>.
\<close>

theorem segmentation_correct:
  fixes df :: "'p drow list" and c :: int
  defines "grp \<equiv> filter (\<lambda>r. contract_id r = c) (groupby_apply contract_id calculate_group_number df)"
  shows "map drow.truncate grp = filter (\<lambda>r. contract_id r = c) df
       \<and> (sorted (map msg_time df) \<longrightarrow> sorted (map msg_time grp))
       \<and> (grp \<noteq> [] \<longrightarrow> group_number (hd grp) = 1)
       \<and> (\<forall>i. Suc i < length grp \<longrightarrow>
             group_number (grp ! Suc i) =
               (if load_number (grp ! Suc i) = None \<or> load_number (grp ! i) = None
                   \<or> load_number (grp ! Suc i) \<noteq> load_number (grp ! i)
                then group_number (grp ! i) + 1 else group_number (grp ! i)))
       \<and> sorted (map group_number grp)"
proof -
  have grp: "grp = calculate_group_number (filter (\<lambda>r. contract_id r = c) df)"
    unfolding grp_def by (rule filter_groupby_apply) (rule contract_calculate_group_number)
  have "map drow.truncate grp = filter (\<lambda>r. contract_id r = c) df"
    unfolding grp by (rule truncate_group_numbers)
  moreover have "sorted (map msg_time df) \<longrightarrow> sorted (map msg_time grp)"
    unfolding grp by (simp add: msg_time_calculate_group_number sorted_filter)
  ultimately show ?thesis
    unfolding grp by (intro conjI group_number_rule)
qed

theorem segmentation_correct_witness:
  "sorted (map msg_time (add_time_delta example_settings example_repeat))
   \<and> sorted (map msg_time (filter (\<lambda>r. contract_id r = 7)
        (groupby_apply contract_id calculate_group_number
           (add_time_delta example_settings example_repeat))))
   \<and> filter (\<lambda>r. contract_id r = 7)
        (groupby_apply contract_id calculate_group_number
           (add_time_delta example_settings example_repeat)) \<noteq> []
   \<and> group_number (hd (filter (\<lambda>r. contract_id r = 7)
        (groupby_apply contract_id calculate_group_number
           (add_time_delta example_settings example_repeat)))) = 1
   \<and> Suc 1 < length (filter (\<lambda>r. contract_id r = 7)
        (groupby_apply contract_id calculate_group_number
           (add_time_delta example_settings example_repeat)))
   \<and> group_number (filter (\<lambda>r. contract_id r = 7)
        (groupby_apply contract_id calculate_group_number
           (add_time_delta example_settings example_repeat)) ! Suc 1) =
       group_number (filter (\<lambda>r. contract_id r = 7)
        (groupby_apply contract_id calculate_group_number
           (add_time_delta example_settings example_repeat)) ! 1) + 1"
proof -
  let ?df = "add_time_delta example_settings example_repeat"
  let ?grp = "filter (\<lambda>r. contract_id r = 7) (groupby_apply contract_id calculate_group_number ?df)"
  have srt: "sorted (map msg_time ?df)"
    by code_simp
  have ne: "?grp \<noteq> []"
    by code_simp
  have i: "Suc 1 < length ?grp"
    by code_simp
  have lbl: "load_number (?grp ! Suc 1) \<noteq> load_number (?grp ! 1)"
    by code_simp
  from segmentation_correct [of 7 ?df] srt ne i lbl
  show ?thesis by auto
qed

section \<open>Partition of the records into intervals\<close>

lemma mset_concat_filter:
  "distinct ks \<Longrightarrow>
     mset (concat (map (\<lambda>k. filter (\<lambda>r. key r = k) xs) ks)) = filter_mset (\<lambda>r. key r \<in> set ks) (mset xs)"
proof (induction ks)
  case Nil
  show ?case by simp
next
  case (Cons k ks)
  then have "k \<notin> set ks" and IH: "mset (concat (map (\<lambda>k. filter (\<lambda>r. key r = k) xs) ks)) = filter_mset (\<lambda>r. key r \<in> set ks) (mset xs)"
    by simp_all
  have "filter_mset (\<lambda>r. key r = k) (mset xs) + filter_mset (\<lambda>r. key r \<in> set ks) (mset xs)
          = filter_mset (\<lambda>r. key r \<in> set (k # ks)) (mset xs)"
    using \<open>k \<notin> set ks\<close> by (intro multiset_eqI) auto
  then show ?case by (simp add: IH)
qed

lemma mset_groupby_chunks:
  "mset (concat (map (\<lambda>k. filter (\<lambda>r. key r = k) xs) (sort (remdups (map key xs))))) = mset xs"
proof -
  have "filter_mset (\<lambda>r. key r \<in> key ` set xs) (mset xs) = mset xs"
    by (rule filter_mset_eq_conv [THEN iffD2]) auto
  then show ?thesis by (simp add: mset_concat_filter)
qed

lemma mset_groupby_apply:
  assumes keep: "\<And>grp. map g (f grp) = map g' grp"
  shows "mset (map g (groupby_apply key f df)) = mset (map g' df)"
proof -
  have "map g (groupby_apply key f df) =
          map g' (concat (map (\<lambda>k. filter (\<lambda>r. key r = k) df) (sort (remdups (map key df)))))"
    by (simp add: groupby_apply_def map_concat comp_def keep)
  then show ?thesis
    by (simp only: mset_map mset_groupby_chunks)
qed

lemma mset_truncate_points: "mset (map row.truncate (points cfg df)) = mset df"
proof -
  have "mset (map row.truncate (points cfg df)) =
          mset (map row.truncate (sort_values_msg_time (add_time_delta cfg (sort_values_msg_time df))))"
    unfolding points_def by (rule mset_groupby_apply) (rule truncate_calculate_group_number)
  also have "\<dots> = mset df"
    by (simp add: truncate_sort truncate_add_time_delta sort_values_idem, simp add: sort_values_msg_time_def)
  finally show ?thesis .
qed

lemma make_interval_sel [simp]:
  "contract (make_interval idx grp) = fst idx"
  "group_col (make_interval idx grp) = snd idx"
  "total_points (make_interval idx grp) = length grp"
  "msg_time_min (make_interval idx grp) = Min (set (map msg_time grp))"
  "msg_time_max (make_interval idx grp) = Max (set (map msg_time grp))"
  by (simp_all add: make_interval_def)

lemma sum_total_points:
  "sum_list (map total_points (filter (\<lambda>iv. contract iv = c) (make_intervals orig)))
     = length (filter (\<lambda>r. contract_id r = c) orig)"
proof -
  let ?keys = "sort (remdups (map group_key orig))"
  let ?ks = "filter (\<lambda>idx. fst idx = c) ?keys"
  have "filter (\<lambda>iv. contract iv = c) (make_intervals orig)
          = map (\<lambda>idx. make_interval idx (filter (\<lambda>r. group_key r = idx) orig)) ?ks"
    by (simp add: make_intervals_def filter_map comp_def)
  then have "sum_list (map total_points (filter (\<lambda>iv. contract iv = c) (make_intervals orig)))
          = sum_list (map length (map (\<lambda>idx. filter (\<lambda>r. group_key r = idx) orig) ?ks))"
    by (simp add: comp_def)
  also have "\<dots> = size (mset (concat (map (\<lambda>idx. filter (\<lambda>r. group_key r = idx) orig) ?ks)))"
    by (simp add: length_concat)
  also have "\<dots> = size (filter_mset (\<lambda>r. group_key r \<in> set ?ks) (mset orig))"
    by (subst mset_concat_filter) simp_all
  also have "filter_mset (\<lambda>r. group_key r \<in> set ?ks) (mset orig) = filter_mset (\<lambda>r. contract_id r = c) (mset orig)"
    by (rule filter_mset_cong) (auto simp: group_key_def)
  finally show ?thesis
    by (simp flip: mset_filter)
qed

lemma length_contract_points:
  "length (filter (\<lambda>r. contract_id r = c) (points cfg df)) = length (filter (\<lambda>r. contract_id r = c) df)"
proof -
  have "length (filter (\<lambda>r. contract_id r = c) (points cfg df))
          = length (map row.truncate (filter (\<lambda>r. contract_id r = c) (points cfg df)))"
    by simp
  also have "\<dots> = length (filter (\<lambda>r. contract_id r = c) (sort_key msg_time df))"
    by (simp only: truncate_contract_points sort_values_msg_time_def)
  also have "\<dots> = length (filter (\<lambda>r. contract_id r = c) df)"
    by (simp add: filter_sort)
  finally show ?thesis .
qed

lemma interval_of_point:
  assumes "r \<in> set orig"
  shows "\<exists>!iv. iv \<in> set (make_intervals orig) \<and> contract iv = contract_id r \<and> group_col iv = group_number r"
proof (rule ex1I)
  let ?iv = "make_interval (group_key r) (filter (\<lambda>x. group_key x = group_key r) orig)"
  show "?iv \<in> set (make_intervals orig) \<and> contract ?iv = contract_id r \<and> group_col ?iv = group_number r"
    using assms by (auto simp: make_intervals_def intro!: image_eqI [where x = "group_key r"]) (simp_all add: group_key_def)
  fix iv assume "iv \<in> set (make_intervals orig) \<and> contract iv = contract_id r \<and> group_col iv = group_number r"
  then show "iv = ?iv"
    by (auto simp: make_intervals_def group_key_def)
qed

lemma total_points_make_intervals:
  assumes "iv \<in> set (make_intervals orig)"
  shows "total_points iv = length (filter (\<lambda>r. contract_id r = contract iv \<and> group_number r = group_col iv) orig)"
    and "1 \<le> total_points iv"
proof -
  from assms obtain r where r: "r \<in> set orig"
    and iv: "iv = make_interval (group_key r) (filter (\<lambda>x. group_key x = group_key r) orig)"
    by (auto simp: make_intervals_def)
  show "total_points iv = length (filter (\<lambda>r. contract_id r = contract iv \<and> group_number r = group_col iv) orig)"
    unfolding iv by (simp add: group_key_def)
  have "r \<in> set (filter (\<lambda>x. group_key x = group_key r) orig)"
    using r by simp
  then have "0 < length (filter (\<lambda>x. group_key x = group_key r) orig)"
    by (metis length_pos_if_in_set)
  then show "1 \<le> total_points iv"
    unfolding iv by (simp add: Suc_le_eq)
qed

text \<open>
  C4. The intervals built from \<^verbatim>\<open>orig_df\<close> partition the records: the rows of
  \<^verbatim>\<open>orig_df\<close> are the input records, every one of them belongs to exactly one
  (contract, group) interval, every interval counts its own members and has at least one,
  and the point counts of the intervals of a contract add up to the number of input records
  of that contract.
\<close>

theorem partition_complete:
  fixes cfg :: settings and df :: "'p row list" and c :: int
  shows "mset (map row.truncate (points cfg df)) = mset df
       \<and> (\<forall>r \<in> set (points cfg df).
            \<exists>!iv. iv \<in> set (make_intervals (points cfg df))
                  \<and> contract iv = contract_id r \<and> group_col iv = group_number r)
       \<and> (\<forall>iv \<in> set (make_intervals (points cfg df)).
            1 \<le> total_points iv
            \<and> total_points iv =
                length (filter (\<lambda>r. contract_id r = contract iv \<and> group_number r = group_col iv)
                          (points cfg df)))
       \<and> sum_list (map total_points (filter (\<lambda>iv. contract iv = c) (make_intervals (points cfg df))))
           = length (filter (\<lambda>r. contract_id r = c) df)"
proof (intro conjI ballI)
  show "mset (map row.truncate (points cfg df)) = mset df"
    by (rule mset_truncate_points)
  show "sum_list (map total_points (filter (\<lambda>iv. contract iv = c) (make_intervals (points cfg df))))
           = length (filter (\<lambda>r. contract_id r = c) df)"
    by (simp only: sum_total_points length_contract_points)
qed (rule interval_of_point total_points_make_intervals, assumption)+

theorem partition_complete_witness:
  "points example_settings example_repeat \<noteq> []
   \<and> make_intervals (points example_settings example_repeat) \<noteq> []
   \<and> 1 \<le> total_points (hd (make_intervals (points example_settings example_repeat)))
   \<and> sum_list (map total_points
        (filter (\<lambda>iv. contract iv = 7) (make_intervals (points example_settings example_repeat)))) = 6"
proof -
  let ?ivs = "make_intervals (points example_settings example_repeat)"
  have a: "points example_settings example_repeat \<noteq> []"
    by code_simp
  have b: "?ivs \<noteq> []"
    by code_simp
  have c: "length (filter (\<lambda>r. contract_id r = 7) example_repeat) = 6"
    by code_simp
  note inst = partition_complete [of example_settings example_repeat 7]
  from b have "hd ?ivs \<in> set ?ivs"
    by (rule hd_in_set)
  with inst have "1 \<le> total_points (hd ?ivs)"
    by blast
  moreover from inst c have "sum_list (map total_points (filter (\<lambda>iv. contract iv = 7) ?ivs)) = 6"
    by simp
  ultimately show ?thesis
    using a b by simp
qed

lemma sorted_concat_chunks:
  "sorted ks \<Longrightarrow> (\<And>k. set (map key (h k)) \<subseteq> {k}) \<Longrightarrow> sorted (map key (concat (map h ks)))"
proof (induction ks)
  case Nil
  show ?case by simp
next
  case (Cons k ks)
  have "\<forall>x\<in>set (h k). \<forall>y\<in>set (concat (map h ks)). key x \<le> key y"
  proof (intro ballI)
    fix x y assume x: "x \<in> set (h k)" and y: "y \<in> set (concat (map h ks))"
    from x Cons.prems(2) [of k] have kx: "key x = k" by auto
    from y obtain k' where k': "k' \<in> set ks" and "y \<in> set (h k')" by auto
    with Cons.prems(2) [of k'] have "key y = k'" by auto
    with kx k' Cons.prems(1) show "key x \<le> key y" by auto
  qed
  moreover have "sorted xs" if "\<forall>x\<in>set xs. x = k" for xs
    using that by (induction xs) auto
  then have "sorted (map key (h k))"
    using Cons.prems(2) [of k] by blast
  moreover have "sorted (map key (concat (map h ks)))"
    using Cons by simp
  ultimately show ?case
    by (auto simp: sorted_append)
qed

lemma groupby_chunks_sort:
  "concat (map (\<lambda>k. filter (\<lambda>r. key r = k) df) (sort (remdups (map key df)))) = sort_key key df"
proof (rule properties_for_sort_key [symmetric])
  let ?L = "concat (map (\<lambda>k. filter (\<lambda>r. key r = k) df) (sort (remdups (map key df))))"
  show "mset ?L = mset df"
    by (rule mset_groupby_chunks)
  show "sorted (map key ?L)"
    by (rule sorted_concat_chunks) auto
  fix k assume "k \<in> set ?L"
  have "filter (\<lambda>y. key y = key k) (groupby_apply key (\<lambda>grp. grp) df) = filter (\<lambda>x. key x = key k) df"
    by (rule filter_groupby_apply) simp
  then show "filter (\<lambda>x. key k = key x) ?L = filter (\<lambda>x. key k = key x) df"
    by (simp add: groupby_apply_def eq_commute [of "key k"])
qed

lemma map_groupby_apply:
  assumes keep: "\<And>grp. map g (f grp) = map g' grp"
  shows "map g (groupby_apply key f df) = map g' (sort_key key df)"
proof -
  have "map g (groupby_apply key f df) =
          map g' (concat (map (\<lambda>k. filter (\<lambda>r. key r = k) df) (sort (remdups (map key df)))))"
    by (simp add: groupby_apply_def map_concat comp_def keep)
  then show ?thesis
    by (simp only: groupby_chunks_sort)
qed

lemma map2_same: "map2 h xs (map c xs) = map (\<lambda>x. h x (c x)) xs"
  by (induction xs) auto

lemma apply_rows_Inr:
  "\<forall>x\<in>set xs. \<not> isl (f x) \<Longrightarrow> apply_rows f xs = Inr (map (\<lambda>x. projr (f x)) xs)"
  by (induction xs) (auto split: sum.splits)

lemma flag_ping_rate_Inr:
  assumes "\<forall>iv\<in>set ivs. total_points iv \<noteq> 0"
  shows "flag_ping_rate cfg ivs =
           Inr (map (\<lambda>iv. iv\<lparr>invalid_load_ping_rate :=
                      projr (flag_invalid_ping_rates iv (ping_rate_threshold cfg))\<rparr>) ivs)"
proof -
  have "\<forall>iv\<in>set ivs. \<not> isl (flag_invalid_ping_rates iv (ping_rate_threshold cfg))"
    using assms by (auto simp: flag_invalid_ping_rates_def Let_def split: option.splits)
  then have "apply_rows (\<lambda>row. flag_invalid_ping_rates row (ping_rate_threshold cfg)) ivs
               = Inr (map (\<lambda>iv. projr (flag_invalid_ping_rates iv (ping_rate_threshold cfg))) ivs)"
    by (rule apply_rows_Inr)
  then show ?thesis
    by (simp add: flag_ping_rate_def map2_same)
qed

lemma flag_ping_rate_Inl:
  assumes "\<exists>iv\<in>set ivs. total_points iv = 0"
  shows "flag_ping_rate cfg ivs = Inl ZeroDivisionError"
proof -
  have "apply_rows (\<lambda>row. flag_invalid_ping_rates row thr) ivs = Inl ZeroDivisionError" for thr
    using assms
  proof (induction ivs)
    case Nil
    then show ?case by simp
  next
    case (Cons iv ivs)
    show ?case
    proof (cases "total_points iv = 0")
      case True
      then show ?thesis by (simp add: flag_invalid_ping_rates_def)
    next
      case False
      with Cons.prems have "\<exists>iv\<in>set ivs. total_points iv = 0" by simp
      from Cons.IH [OF this] False show ?thesis
        by (simp add: flag_invalid_ping_rates_def Let_def split: option.splits)
    qed
  qed
  then show ?thesis by (simp add: flag_ping_rate_def)
qed

section \<open>The flag steps as row-wise updates\<close>

lemma map_flag_duplicated_load_numbers:
  assumes "\<And>iv v. g (iv\<lparr>invalid_duplicate_loads := v\<rparr>) = g iv"
  shows "map g (flag_duplicated_load_numbers grp) = map g grp"
  by (rule nth_equalityI) (simp_all add: flag_duplicated_load_numbers_def duplicated_def assms)

lemma map_flag_duplicate:
  assumes "\<And>iv v. g (iv\<lparr>invalid_duplicate_loads := v\<rparr>) = g iv"
    and "\<And>iv v. g (iv\<lparr>invalid_load_duplicate := v\<rparr>) = g iv"
  shows "map g (flag_duplicate ivs) = map g (sort_key contract ivs)"
proof -
  have c: "contract (iv\<lparr>invalid_load_duplicate := 0\<rparr>) = contract iv" for iv :: interval_row
    by simp
  have "map g (flag_duplicate ivs) = map g (sort_key contract (map (\<lambda>iv. iv\<lparr>invalid_load_duplicate := 0\<rparr>) ivs))"
    unfolding flag_duplicate_def
    by (rule map_groupby_apply) (rule map_flag_duplicated_load_numbers, rule assms)
  also have "sort_key contract (map (\<lambda>iv. iv\<lparr>invalid_load_duplicate := 0\<rparr>) ivs)
               = map (\<lambda>iv. iv\<lparr>invalid_load_duplicate := 0\<rparr>) (sort_key contract ivs)"
    by (subst sort_key_map) (simp only: c)
  also have "map g \<dots> = map g (sort_key contract ivs)"
    by (simp add: assms)
  finally show ?thesis .
qed

lemma map_check_overlaps:
  assumes "\<And>iv v. g (iv\<lparr>invalid_load_overlap := v\<rparr>) = g iv"
  shows "map g (check_overlaps grp) = map g grp"
  by (rule nth_equalityI) (simp_all add: check_overlaps_def assms)

lemma map_flag_overlap:
  assumes "\<And>iv v. g (iv\<lparr>invalid_load_overlap := v\<rparr>) = g iv"
  shows "map g (flag_overlap ivs) = map g (sort_key contract ivs)"
proof -
  have c: "contract (iv\<lparr>invalid_load_overlap := 0\<rparr>) = contract iv" for iv :: interval_row
    by simp
  have "map g (flag_overlap ivs) = map g (sort_key contract (map (\<lambda>iv. iv\<lparr>invalid_load_overlap := 0\<rparr>) ivs))"
    unfolding flag_overlap_def
    by (rule map_groupby_apply) (rule map_check_overlaps, rule assms)
  also have "sort_key contract (map (\<lambda>iv. iv\<lparr>invalid_load_overlap := 0\<rparr>) ivs)
               = map (\<lambda>iv. iv\<lparr>invalid_load_overlap := 0\<rparr>) (sort_key contract ivs)"
    by (subst sort_key_map) (simp only: c)
  also have "map g \<dots> = map g (sort_key contract ivs)"
    by (simp add: assms)
  finally show ?thesis .
qed

lemma map_flag_noncontiguous:
  assumes "\<And>iv v. g (iv\<lparr>time_diff := v\<rparr>) = g iv"
    and "\<And>iv v. g (iv\<lparr>invalid_load_noncontiguous := v\<rparr>) = g iv"
  shows "map g (flag_noncontiguous cfg ivs) = map g (sort_key interval_key ivs)"
  by (rule nth_equalityI)
     (simp_all add: flag_noncontiguous_def Let_def noncontiguous_cell_def length_group_shift assms)

lemma map_flag_invalid_load:
  assumes "\<And>iv v. g (iv\<lparr>invalid_load := v\<rparr>) = g iv"
  shows "map g (flag_invalid_load ivs) = map g ivs"
  by (simp add: flag_invalid_load_def assms)

lemma apply_rows_length: "apply_rows f xs = Inr ys \<Longrightarrow> length ys = length xs"
  by (induction xs arbitrary: ys) (auto split: sum.splits)

lemma map_flag_ping_rate:
  assumes "flag_ping_rate cfg ivs = Inr out"
    and "\<And>iv v. g (iv\<lparr>invalid_load_ping_rate := v\<rparr>) = g iv"
  shows "map g out = map g ivs"
proof -
  from assms(1) obtain col where col: "apply_rows (\<lambda>row. flag_invalid_ping_rates row (ping_rate_threshold cfg)) ivs = Inr col"
    and out: "out = map2 (\<lambda>iv f. iv\<lparr>invalid_load_ping_rate := f\<rparr>) ivs col"
    by (auto simp: flag_ping_rate_def split: sum.splits)
  from col have "length col = length ivs"
    by (rule apply_rows_length)
  then show ?thesis
    unfolding out by (intro nth_equalityI) (simp_all add: assms(2))
qed

lemma apply_rows_nth:
  "apply_rows f xs = Inr ys \<Longrightarrow> i < length xs \<Longrightarrow> f (xs ! i) = Inr (ys ! i)"
proof (induction xs arbitrary: ys i)
  case Nil
  then show ?case by simp
next
  case (Cons x xs)
  from Cons.prems(1) obtain v vs where v: "f x = Inr v" and vs: "apply_rows f xs = Inr vs"
    and ys: "ys = v # vs"
    by (auto split: sum.splits)
  show ?case
  proof (cases i)
    case 0
    with v ys show ?thesis by simp
  next
    case (Suc j)
    with Cons.prems(2) have "j < length xs" by simp
    from Cons.IH [OF vs this] Suc ys show ?thesis by simp
  qed
qed

lemma flag_reporting_gap_Inr:
  assumes "flag_reporting_gap cfg ivs = Inr gaps"
  shows "gaps = map (\<lambda>iv. iv\<lparr>invalid_load_reporting_gap :=
                       (case time_delta_avg iv of None \<Rightarrow> 0
                        | Some a \<Rightarrow> if a > load_gap_threshold cfg then 1 else 0)\<rparr>) ivs"
  using assms by (simp add: flag_reporting_gap_def split: if_splits)

lemma flag_intervals_Inr:
  assumes "flag_intervals cfg ivs = Inr out"
  obtains gaps ivs' where
    "flag_reporting_gap cfg (flag_point_count cfg (flag_duration cfg ivs)) = Inr gaps"
    and "flag_ping_rate cfg gaps = Inr ivs'"
    and "out = flag_invalid_load (flag_duplicate (flag_noncontiguous cfg (flag_overlap (flag_duplicate ivs'))))"
  using assms by (auto simp: flag_intervals_def split: sum.splits)

lemma early_flags:
  assumes gaps: "flag_reporting_gap cfg ivs = Inr gaps" and ping: "flag_ping_rate cfg gaps = Inr ivs'"
    and iv: "iv \<in> set ivs'"
  shows "time_delta_avg iv = None \<longrightarrow>
           invalid_load_reporting_gap iv = 0 \<and> invalid_load_ping_rate iv = 0"
proof
  assume null: "time_delta_avg iv = None"
  from ping obtain col
    where col: "apply_rows (\<lambda>row. flag_invalid_ping_rates row (ping_rate_threshold cfg)) gaps = Inr col"
      and out: "ivs' = map2 (\<lambda>iv f. iv\<lparr>invalid_load_ping_rate := f\<rparr>) gaps col"
    by (auto simp: flag_ping_rate_def split: sum.splits)
  from col have len: "length col = length gaps"
    by (rule apply_rows_length)
  from iv out len obtain i where i: "i < length gaps"
    and ivi: "iv = (gaps ! i)\<lparr>invalid_load_ping_rate := col ! i\<rparr>"
    by (auto simp: in_set_conv_nth)
  from null ivi have n: "time_delta_avg (gaps ! i) = None"
    by simp
  from apply_rows_nth [OF col i]
  have "flag_invalid_ping_rates (gaps ! i) (ping_rate_threshold cfg) = Inr (col ! i)" .
  with n have c0: "col ! i = 0"
    by (simp add: flag_invalid_ping_rates_def split: if_splits)
  from i have "gaps ! i \<in> set gaps"
    by simp
  with n have "invalid_load_reporting_gap (gaps ! i) = 0"
    unfolding flag_reporting_gap_Inr [OF gaps] by auto
  with c0 ivi show "invalid_load_reporting_gap iv = 0 \<and> invalid_load_ping_rate iv = 0"
    by simp
qed

lemma late_flags_set:
  assumes "\<And>iv v. g (iv\<lparr>invalid_duplicate_loads := v\<rparr>) = g iv"
    and "\<And>iv v. g (iv\<lparr>invalid_load_duplicate := v\<rparr>) = g iv"
    and "\<And>iv v. g (iv\<lparr>invalid_load_overlap := v\<rparr>) = g iv"
    and "\<And>iv v. g (iv\<lparr>time_diff := v\<rparr>) = g iv"
    and "\<And>iv v. g (iv\<lparr>invalid_load_noncontiguous := v\<rparr>) = g iv"
    and "\<And>iv v. g (iv\<lparr>invalid_load := v\<rparr>) = g iv"
  shows "g ` set (flag_invalid_load (flag_duplicate (flag_noncontiguous cfg (flag_overlap (flag_duplicate ivs)))))
           = g ` set ivs"
proof -
  have dup: "g ` set (flag_duplicate X) = g ` set X" for X
    using map_flag_duplicate [of g X, OF assms(1,2), THEN arg_cong, of set] by simp
  have ov: "g ` set (flag_overlap X) = g ` set X" for X
    using map_flag_overlap [of g X, OF assms(3), THEN arg_cong, of set] by simp
  have nc: "g ` set (flag_noncontiguous cfg X) = g ` set X" for X
    using map_flag_noncontiguous [of g cfg X, OF assms(4,5), THEN arg_cong, of set] by simp
  have il: "g ` set (flag_invalid_load X) = g ` set X" for X
    using map_flag_invalid_load [of g X, OF assms(6), THEN arg_cong, of set] by simp
  show ?thesis
    by (simp only: dup ov nc il)
qed

lemma flag_intervals_null_average:
  assumes ok: "flag_intervals cfg ivs = Inr out" and iv: "iv \<in> set out"
  shows "time_delta_avg iv = None \<longrightarrow>
           invalid_load_reporting_gap iv = 0 \<and> invalid_load_ping_rate iv = 0"
proof -
  from ok obtain gaps ivs'
    where gaps: "flag_reporting_gap cfg (flag_point_count cfg (flag_duration cfg ivs)) = Inr gaps"
      and ping: "flag_ping_rate cfg gaps = Inr ivs'"
      and out: "out = flag_invalid_load (flag_duplicate (flag_noncontiguous cfg (flag_overlap (flag_duplicate ivs'))))"
    by (rule flag_intervals_Inr)
  let ?g = "\<lambda>iv. (time_delta_avg iv, invalid_load_reporting_gap iv, invalid_load_ping_rate iv)"
  have "?g ` set out = ?g ` set ivs'"
    unfolding out by (rule late_flags_set) simp_all
  with iv obtain x where x: "x \<in> set ivs'" and "?g x = ?g iv"
    by (metis (no_types, lifting) imageE image_eqI)
  with early_flags [OF gaps ping x] show ?thesis
    by auto
qed

section \<open>Null averages\<close>

text \<open>
  C6. A single record makes one interval, whose average delta is null. The column of
  averages then holds null cells only, and the cell that computes
  \<^verbatim>\<open>invalid_load_reporting_gap\<close> raises \<^verbatim>\<open>TypeError\<close>, so that the run ends. In a frame in
  which another interval has an average, here the one of two contracts, the interval with
  the null average gets 0 in \<^verbatim>\<open>invalid_load_reporting_gap\<close> and in
  \<^verbatim>\<open>invalid_load_ping_rate\<close>.
\<close>

theorem reporting_gap_type_error:
  "map time_delta_avg (make_intervals (points example_settings example_single)) = [None]
   \<and> flag_intervals example_settings (make_intervals (points example_settings example_single))
       = Inl TypeError
   \<and> run example_settings [csv_point 7 0 1] = Inl TypeError
   \<and> map_sum id (map (\<lambda>iv. (time_delta_avg iv, invalid_load_reporting_gap iv, invalid_load_ping_rate iv)))
        (flag_intervals example_settings (make_intervals (points example_settings example_two_contracts)))
       = Inr [(Some 10, 0, 0), (None, 0, 0)]"
  by code_simp

section \<open>The combined verdict\<close>

text \<open>
  C9. In the flagged frame \<^verbatim>\<open>invalid_load\<close> is 1 for an interval with at least one of the
  nine flag columns at 1, and 0 for an interval with all nine at 0.
\<close>

theorem invalid_load_any:
  assumes "flag_intervals cfg ivs = Inr out" and "iv \<in> set out"
  shows "((invalid_load_duration_short iv = 1 \<or> invalid_load_duration_long iv = 1
           \<or> invalid_load_point_count_low iv = 1 \<or> invalid_load_point_count_high iv = 1
           \<or> invalid_load_reporting_gap iv = 1 \<or> invalid_load_ping_rate iv = 1
           \<or> invalid_load_overlap iv = 1 \<or> invalid_load_noncontiguous iv = 1
           \<or> invalid_load_duplicate iv = 1) \<longrightarrow> invalid_load iv = 1)
       \<and> ((invalid_load_duration_short iv = 0 \<and> invalid_load_duration_long iv = 0
           \<and> invalid_load_point_count_low iv = 0 \<and> invalid_load_point_count_high iv = 0
           \<and> invalid_load_reporting_gap iv = 0 \<and> invalid_load_ping_rate iv = 0
           \<and> invalid_load_overlap iv = 0 \<and> invalid_load_noncontiguous iv = 0
           \<and> invalid_load_duplicate iv = 0) \<longrightarrow> invalid_load iv = 0)"
proof -
  from assms(1) obtain X where "out = flag_invalid_load X"
    by (auto simp: flag_intervals_def split: sum.splits)
  with assms(2) obtain x where
    "iv = x\<lparr>invalid_load := (if list_ex (\<lambda>v. v \<noteq> 0) (outlier_columns x) then 1 else 0)\<rparr>"
    by (auto simp: flag_invalid_load_def)
  then show ?thesis
    by (auto simp: outlier_columns_def)
qed

theorem invalid_load_any_witness:
  "invalid_load_point_count_low (projr (flag_intervals example_settings
        (make_intervals (points example_settings example_two_contracts))) ! 1) = 1
   \<and> invalid_load (projr (flag_intervals example_settings
        (make_intervals (points example_settings example_two_contracts))) ! 1) = 1
   \<and> list_all (\<lambda>v. v = 0) (outlier_columns (projr (flag_intervals example_settings
        (make_intervals (points example_settings example_two_contracts))) ! 0))
   \<and> invalid_load (projr (flag_intervals example_settings
        (make_intervals (points example_settings example_two_contracts))) ! 0) = 0"
proof -
  let ?r = "flag_intervals example_settings (make_intervals (points example_settings example_two_contracts))"
  have r: "?r = Inr (projr ?r)"
    by code_simp
  have len: "length (projr ?r) = 2"
    by code_simp
  have low: "invalid_load_point_count_low (projr ?r ! 1) = 1"
    by code_simp
  have zero: "list_all (\<lambda>v. v = 0) (outlier_columns (projr ?r ! 0))"
    by code_simp
  from len have m1: "projr ?r ! 1 \<in> set (projr ?r)" and m0: "projr ?r ! 0 \<in> set (projr ?r)"
    by simp_all
  from invalid_load_any [OF r m1] low have "invalid_load (projr ?r ! 1) = 1"
    by blast
  moreover from invalid_load_any [OF r m0] zero have "invalid_load (projr ?r ! 0) = 0"
    by (simp add: outlier_columns_def)
  ultimately show ?thesis
    using low zero by simp
qed

section \<open>Duplicate load numbers\<close>

text \<open>Whatever the intervals are, no row of the flagged frame has
  \<^verbatim>\<open>invalid_load_duplicate\<close> set.\<close>

lemma invalid_load_duplicate_zero:
  assumes "flag_intervals cfg ivs = Inr out" and "iv \<in> set out"
  shows "invalid_load_duplicate iv = 0"
proof -
  from assms(1) obtain X where out: "out = flag_invalid_load (flag_duplicate X)"
    by (auto simp: flag_intervals_def split: sum.splits)
  have "map invalid_load_duplicate (flag_duplicate X)
          = map invalid_load_duplicate (sort_key contract (map (\<lambda>iv. iv\<lparr>invalid_load_duplicate := 0\<rparr>) X))"
    unfolding flag_duplicate_def
    by (rule map_groupby_apply) (rule map_flag_duplicated_load_numbers, simp)
  then have "set (map invalid_load_duplicate (flag_duplicate X))
          = set (map invalid_load_duplicate (sort_key contract (map (\<lambda>iv. iv\<lparr>invalid_load_duplicate := 0\<rparr>) X)))"
    by (rule arg_cong)
  then have "invalid_load_duplicate ` set (flag_duplicate X) \<subseteq> {0}"
    by auto
  then show ?thesis
    using assms(2) unfolding out by (auto simp: flag_invalid_load_def)
qed

text \<open>
  C1. On the contract whose labels run 1, 1, 2, 2, 1, 1 the flag cells give three intervals
  labelled 1, 2, 1. \<^verbatim>\<open>flag_duplicated_load_numbers\<close> marks the two intervals labelled 1 in
  the column \<^verbatim>\<open>invalid_duplicate_loads\<close>; the column \<^verbatim>\<open>invalid_load_duplicate\<close>, the one
  that enters \<^verbatim>\<open>invalid_load\<close>, stays 0 on all three, and so does \<^verbatim>\<open>invalid_load\<close>.
\<close>

theorem duplicate_column_untouched:
  "map_sum id (map (\<lambda>iv. (load iv, invalid_duplicate_loads iv, invalid_load_duplicate iv, invalid_load iv)))
     (flag_intervals example_settings (make_intervals (points example_settings example_repeat)))
   = Inr [(Some 1, Some 1, 0, 0), (Some 2, None, 0, 0), (Some 1, Some 1, 0, 0)]"
  by code_simp

section \<open>Contiguity of the loads of a contract\<close>

lemma group_shift_same:
  "Suc i < length xs \<Longrightarrow> key (xs ! i) = key (xs ! Suc i) \<Longrightarrow>
     group_shift key val prev xs ! Suc i = Some (val (xs ! i))"
proof (induction xs arbitrary: prev i)
  case Nil
  then show ?case by simp
next
  case (Cons x xs)
  show ?case
  proof (cases i)
    case 0
    with Cons.prems obtain y ys where "xs = y # ys"
      by (cases xs) auto
    with 0 Cons.prems show ?thesis by simp
  next
    case (Suc j)
    with Cons.prems have "Suc j < length xs" and "key (xs ! j) = key (xs ! Suc j)"
      by simp_all
    from Cons.IH [OF this] Suc show ?thesis by simp
  qed
qed

lemma group_shift_first:
  "i < length xs \<Longrightarrow> (\<forall>j<i. key (xs ! j) \<noteq> key (xs ! i)) \<Longrightarrow>
     group_shift key val prev xs ! i = prev (key (xs ! i))"
proof (induction xs arbitrary: prev i)
  case Nil
  then show ?case by simp
next
  case (Cons x xs)
  show ?case
  proof (cases i)
    case 0
    then show ?thesis by simp
  next
    case (Suc k)
    with Cons.prems have k: "k < length xs" by simp
    have "\<forall>j<k. key (xs ! j) \<noteq> key (xs ! k)"
    proof (intro allI impI)
      fix j assume "j < k"
      then have "Suc j < i" using Suc by simp
      with Cons.prems(2) have "key ((x # xs) ! Suc j) \<noteq> key ((x # xs) ! i)" by blast
      with Suc show "key (xs ! j) \<noteq> key (xs ! k)" by simp
    qed
    from Cons.IH [OF k this] have "group_shift key val (prev(key x \<mapsto> val x)) xs ! k
        = (prev(key x \<mapsto> val x)) (key (xs ! k))" .
    moreover from Cons.prems(2) Suc have "key x \<noteq> key (xs ! k)"
      by (metis nth_Cons_0 nth_Cons_Suc zero_less_Suc)
    ultimately show ?thesis using Suc by simp
  qed
qed

lemma first_of_key_in_sorted:
  assumes "sorted (map key xs)" and "i < length xs" and "i = 0 \<or> key (xs ! (i - 1)) \<noteq> key (xs ! i)"
  shows "\<forall>j<i. key (xs ! j) \<noteq> key (xs ! i)"
proof (intro allI impI)
  fix j assume j: "j < i"
  then have i: "0 < i" by simp
  with assms(3) have ne: "key (xs ! (i - 1)) \<noteq> key (xs ! i)" by simp
  from assms(1,2) i have "key (xs ! (i - 1)) \<le> key (xs ! i)"
    by (simp add: sorted_iff_nth_mono)
  moreover from assms(1,2) j have "key (xs ! j) \<le> key (xs ! (i - 1))"
    by (simp add: sorted_iff_nth_mono)
  ultimately show "key (xs ! j) \<noteq> key (xs ! i)"
    using ne by auto
qed

lemma group_shift_sorted:
  assumes "sorted (map key xs)" and "i < length xs"
  shows "group_shift key val Map.empty xs ! i =
           (if 0 < i \<and> key (xs ! (i - 1)) = key (xs ! i) then Some (val (xs ! (i - 1))) else None)"
proof (cases "0 < i \<and> key (xs ! (i - 1)) = key (xs ! i)")
  case True
  then obtain k where k: "i = Suc k" by (cases i) auto
  with True assms(2) show ?thesis
    by (simp add: group_shift_same)
next
  case False
  then have "i = 0 \<or> key (xs ! (i - 1)) \<noteq> key (xs ! i)" by auto
  from first_of_key_in_sorted [OF assms this]
  have "group_shift key val Map.empty xs ! i = Map.empty (key (xs ! i))"
    by (rule group_shift_first [OF assms(2)])
  with False show ?thesis by auto
qed

lemma sorted_contract_if_interval_key:
  assumes "sorted (map interval_key xs)"
  shows "sorted (map contract xs)"
proof -
  have "contract a \<le> contract b" if "interval_key a \<le> interval_key b" for a b :: interval_row
    using that by (auto simp: interval_key_def less_eq_prod_def)
  with assms show ?thesis
    by (auto simp: sorted_iff_nth_mono)
qed

lemma flag_noncontiguous_nth:
  assumes "i < length ivs"
  shows "invalid_load_noncontiguous (flag_noncontiguous cfg ivs ! i) =
           (if 0 < i
               \<and> contract (sort_key interval_key ivs ! (i - 1)) = contract (sort_key interval_key ivs ! i)
               \<and> load_gap_threshold cfg <
                   \<bar>msg_time_min (sort_key interval_key ivs ! i)
                      - msg_time_max (sort_key interval_key ivs ! (i - 1))\<bar>
            then 1 else 0)"
proof -
  let ?S = "sort_key interval_key ivs"
  have srt: "sorted (map contract ?S)"
    by (rule sorted_contract_if_interval_key) simp
  from assms have i: "i < length ?S" by simp
  have "flag_noncontiguous cfg ivs ! i =
          noncontiguous_cell cfg (?S ! i) (group_shift contract msg_time_max Map.empty ?S ! i)"
    using i by (simp add: flag_noncontiguous_def Let_def length_group_shift)
  then show ?thesis
    by (simp add: group_shift_sorted [OF srt i] noncontiguous_cell_def)
qed

lemma flag_intervals_keeps_intervals:
  assumes "flag_intervals cfg ivs = Inr out"
  shows "mset (map (\<lambda>iv. (contract iv, group_col iv, load iv, msg_time_min iv, msg_time_max iv,
                           time_delta_avg iv, total_points iv, total_time iv)) out)
       = mset (map (\<lambda>iv. (contract iv, group_col iv, load iv, msg_time_min iv, msg_time_max iv,
                           time_delta_avg iv, total_points iv, total_time iv)) ivs)"
proof -
  let ?g = "\<lambda>iv. (contract iv, group_col iv, load iv, msg_time_min iv, msg_time_max iv,
                  time_delta_avg iv, total_points iv, total_time iv)"
  from assms obtain gaps ivs'
    where gaps: "flag_reporting_gap cfg (flag_point_count cfg (flag_duration cfg ivs)) = Inr gaps"
      and e: "flag_ping_rate cfg gaps = Inr ivs'"
      and out: "out = flag_invalid_load (flag_duplicate (flag_noncontiguous cfg (flag_overlap (flag_duplicate ivs'))))"
    by (rule flag_intervals_Inr)
  have "map ?g ivs' = map ?g gaps"
    by (rule map_flag_ping_rate [OF e]) simp
  also have "\<dots> = map ?g ivs"
    unfolding flag_reporting_gap_Inr [OF gaps] by (simp add: flag_point_count_def flag_duration_def)
  finally have early: "mset (map ?g ivs') = mset (map ?g ivs)"
    by simp
  have dup: "mset (map ?g (flag_duplicate X)) = mset (map ?g X)" for X
    by (subst map_flag_duplicate) simp_all
  have ov: "mset (map ?g (flag_overlap X)) = mset (map ?g X)" for X
    by (subst map_flag_overlap) simp_all
  have nc: "mset (map ?g (flag_noncontiguous cfg X)) = mset (map ?g X)" for X
    by (subst map_flag_noncontiguous) simp_all
  have il: "mset (map ?g (flag_invalid_load X)) = mset (map ?g X)" for X
    by (subst map_flag_invalid_load) simp_all
  show ?thesis
    unfolding out by (simp only: dup ov nc il early)
qed

lemma final_frame_order:
  assumes "flag_intervals cfg ivs = Inr out"
  obtains Y where
    "map (\<lambda>iv. (contract iv, msg_time_min iv, msg_time_max iv, invalid_load_noncontiguous iv)) out
       = map (\<lambda>iv. (contract iv, msg_time_min iv, msg_time_max iv, invalid_load_noncontiguous iv))
           (flag_noncontiguous cfg Y)"
    and "map (\<lambda>iv. (contract iv, msg_time_min iv, msg_time_max iv)) (flag_noncontiguous cfg Y)
           = map (\<lambda>iv. (contract iv, msg_time_min iv, msg_time_max iv)) (sort_key interval_key Y)"
proof -
  let ?g = "\<lambda>iv. (contract iv, msg_time_min iv, msg_time_max iv, invalid_load_noncontiguous iv)"
  let ?h = "\<lambda>iv. (contract iv, msg_time_min iv, msg_time_max iv)"
  from assms obtain Y where out: "out = flag_invalid_load (flag_duplicate (flag_noncontiguous cfg Y))"
    by (auto simp: flag_intervals_def split: sum.splits)
  let ?Z = "flag_noncontiguous cfg Y"
  have key: "map ?h ?Z = map ?h (sort_key interval_key Y)"
    by (rule map_flag_noncontiguous) simp_all
  have "map interval_key ?Z = map interval_key (sort_key interval_key Y)"
    by (rule map_flag_noncontiguous) (simp_all add: interval_key_def)
  then have "sorted (map interval_key ?Z)"
    by simp
  then have "sorted (map contract ?Z)"
    by (rule sorted_contract_if_interval_key)
  then have id: "sort_key contract ?Z = ?Z"
    by (rule sort_key_id_if_sorted)
  have "map ?g out = map ?g (flag_duplicate ?Z)"
    unfolding out by (rule map_flag_invalid_load) simp
  also have "\<dots> = map ?g (sort_key contract ?Z)"
    by (rule map_flag_duplicate) simp_all
  finally have "map ?g out = map ?g ?Z"
    by (simp only: id)
  from that [OF this key] show ?thesis .
qed

lemma noncontiguous_positions:
  assumes ok: "flag_intervals cfg ivs = Inr out"
  shows "sorted (map interval_key out)"
    and "i < length out \<Longrightarrow>
           invalid_load_noncontiguous (out ! i) =
             (if 0 < i \<and> contract (out ! (i - 1)) = contract (out ! i)
                 \<and> load_gap_threshold cfg < \<bar>msg_time_min (out ! i) - msg_time_max (out ! (i - 1))\<bar>
              then 1 else 0)"
proof -
  let ?g = "\<lambda>iv. (contract iv, msg_time_min iv, msg_time_max iv, invalid_load_noncontiguous iv)"
  let ?h = "\<lambda>iv. (contract iv, msg_time_min iv, msg_time_max iv)"
  from ok obtain Y where g: "map ?g out = map ?g (flag_noncontiguous cfg Y)"
    and h: "map ?h (flag_noncontiguous cfg Y) = map ?h (sort_key interval_key Y)"
    by (rule final_frame_order)
  let ?Z = "flag_noncontiguous cfg Y" and ?S = "sort_key interval_key Y"
  from g have len: "length out = length ?Z"
    by (rule map_eq_imp_length_eq)
  have lenS: "length ?Z = length Y"
    by (simp add: flag_noncontiguous_def Let_def length_group_shift)
  have gn: "?g (out ! k) = ?g (?Z ! k)" if "k < length out" for k
  proof -
    have "map ?g out ! k = map ?g ?Z ! k"
      by (simp only: g)
    moreover have "k < length ?Z"
      using that len by simp
    ultimately show ?thesis
      using that by (simp only: nth_map)
  qed
  have hn: "?h (?Z ! k) = ?h (?S ! k)" if "k < length out" for k
  proof -
    have "map ?h ?Z ! k = map ?h ?S ! k"
      by (simp only: h)
    moreover have "k < length ?Z" and "k < length ?S"
      using that len lenS by simp_all
    ultimately show ?thesis
      by (simp only: nth_map)
  qed
  have "map interval_key out = map interval_key ?S"
  proof (rule nth_equalityI)
    show "length (map interval_key out) = length (map interval_key ?S)"
      using len lenS by simp
    fix k assume "k < length (map interval_key out)"
    then have k: "k < length out" by simp
    with gn [OF k] hn [OF k] len lenS show "map interval_key out ! k = map interval_key ?S ! k"
      by (simp add: interval_key_def)
  qed
  then show "sorted (map interval_key out)"
    by simp
  assume i: "i < length out"
  then have iY: "i < length Y" using len lenS by simp
  have i1: "i - 1 < length out" using i by simp
  from gn [OF i] have "invalid_load_noncontiguous (out ! i) = invalid_load_noncontiguous (?Z ! i)"
    by simp
  also note flag_noncontiguous_nth [OF iY, of cfg]
  finally show "invalid_load_noncontiguous (out ! i) =
             (if 0 < i \<and> contract (out ! (i - 1)) = contract (out ! i)
                 \<and> load_gap_threshold cfg < \<bar>msg_time_min (out ! i) - msg_time_max (out ! (i - 1))\<bar>
              then 1 else 0)"
    using gn [OF i] hn [OF i] gn [OF i1] hn [OF i1] by simp
qed

lemma first_of_contract_earliest:
  assumes srt: "sorted (map interval_key out)" and i: "i < length out" and j: "j < length out"
    and first: "i = 0 \<or> contract (out ! (i - 1)) \<noteq> contract (out ! i)"
    and same: "contract (out ! j) = contract (out ! i)"
  shows "msg_time_min (out ! i) \<le> msg_time_min (out ! j)"
proof -
  from srt have "sorted (map contract out)"
    by (rule sorted_contract_if_interval_key)
  from first_of_key_in_sorted [OF this i first] same have "\<not> j < i"
    by blast
  then have "i \<le> j" by simp
  with srt j have "interval_key (out ! i) \<le> interval_key (out ! j)"
    by (simp add: sorted_iff_nth_mono)
  with same show ?thesis
    by (auto simp: interval_key_def less_eq_prod_def)
qed

text \<open>
  C7. The flagged frame holds the intervals it was given and stands in the order of
  \<^verbatim>\<open>sort_values(['contract', 'interval'])\<close>, so the row before a row of the same contract is
  its predecessor in time. The first row of a contract in this order, which has the least
  \<^verbatim>\<open>msg_time_min\<close> of the contract, has \<^verbatim>\<open>invalid_load_noncontiguous\<close> = 0. Every other row
  has the flag at 1 exactly when the distance between its \<^verbatim>\<open>msg_time_min\<close> and the
  \<^verbatim>\<open>msg_time_max\<close> of the row before it, a row of the same contract, exceeds
  \<^verbatim>\<open>load_gap_threshold\<close>, and at 0 otherwise.
\<close>

theorem noncontiguous_correct:
  assumes "flag_intervals cfg ivs = Inr out"
  shows "mset (map (\<lambda>iv. (contract iv, group_col iv, load iv, msg_time_min iv, msg_time_max iv,
                           time_delta_avg iv, total_points iv, total_time iv)) out)
           = mset (map (\<lambda>iv. (contract iv, group_col iv, load iv, msg_time_min iv, msg_time_max iv,
                           time_delta_avg iv, total_points iv, total_time iv)) ivs)
       \<and> sorted (map interval_key out)
       \<and> (\<forall>i<length out. i = 0 \<or> contract (out ! (i - 1)) \<noteq> contract (out ! i) \<longrightarrow>
             invalid_load_noncontiguous (out ! i) = 0
             \<and> (\<forall>j<length out. contract (out ! j) = contract (out ! i) \<longrightarrow>
                   msg_time_min (out ! i) \<le> msg_time_min (out ! j)))
       \<and> (\<forall>i<length out. 0 < i \<and> contract (out ! (i - 1)) = contract (out ! i) \<longrightarrow>
             (invalid_load_noncontiguous (out ! i) = 1 \<longleftrightarrow>
                load_gap_threshold cfg < \<bar>msg_time_min (out ! i) - msg_time_max (out ! (i - 1))\<bar>)
             \<and> (invalid_load_noncontiguous (out ! i) = 0 \<longleftrightarrow>
                \<not> load_gap_threshold cfg < \<bar>msg_time_min (out ! i) - msg_time_max (out ! (i - 1))\<bar>))"
proof (intro conjI allI impI)
  show "mset (map (\<lambda>iv. (contract iv, group_col iv, load iv, msg_time_min iv, msg_time_max iv,
                           time_delta_avg iv, total_points iv, total_time iv)) out)
           = mset (map (\<lambda>iv. (contract iv, group_col iv, load iv, msg_time_min iv, msg_time_max iv,
                           time_delta_avg iv, total_points iv, total_time iv)) ivs)"
    using assms by (rule flag_intervals_keeps_intervals)
  show "sorted (map interval_key out)"
    using assms by (rule noncontiguous_positions(1))
next
  fix i assume "i < length out" and "i = 0 \<or> contract (out ! (i - 1)) \<noteq> contract (out ! i)"
  with noncontiguous_positions(2) [OF assms, of i]
  show "invalid_load_noncontiguous (out ! i) = 0"
    by auto
next
  fix i j assume "i < length out" "i = 0 \<or> contract (out ! (i - 1)) \<noteq> contract (out ! i)"
    "j < length out" "contract (out ! j) = contract (out ! i)"
  with noncontiguous_positions(1) [OF assms]
  show "msg_time_min (out ! i) \<le> msg_time_min (out ! j)"
    by (intro first_of_contract_earliest)
next
  fix i assume "i < length out" and "0 < i \<and> contract (out ! (i - 1)) = contract (out ! i)"
  with noncontiguous_positions(2) [OF assms, of i]
  show "invalid_load_noncontiguous (out ! i) = 1 \<longleftrightarrow>
          load_gap_threshold cfg < \<bar>msg_time_min (out ! i) - msg_time_max (out ! (i - 1))\<bar>"
    by auto
next
  fix i assume "i < length out" and "0 < i \<and> contract (out ! (i - 1)) = contract (out ! i)"
  with noncontiguous_positions(2) [OF assms, of i]
  show "invalid_load_noncontiguous (out ! i) = 0 \<longleftrightarrow>
          \<not> load_gap_threshold cfg < \<bar>msg_time_min (out ! i) - msg_time_max (out ! (i - 1))\<bar>"
    by auto
qed

theorem noncontiguous_correct_witness:
  "invalid_load_noncontiguous (projr (flag_intervals example_settings
        (make_intervals (points example_settings example_gap))) ! 0) = 0
   \<and> contract (projr (flag_intervals example_settings
        (make_intervals (points example_settings example_gap))) ! 0)
     = contract (projr (flag_intervals example_settings
        (make_intervals (points example_settings example_gap))) ! 1)
   \<and> load_gap_threshold example_settings
       < \<bar>msg_time_min (projr (flag_intervals example_settings
            (make_intervals (points example_settings example_gap))) ! 1)
          - msg_time_max (projr (flag_intervals example_settings
            (make_intervals (points example_settings example_gap))) ! 0)\<bar>
   \<and> invalid_load_noncontiguous (projr (flag_intervals example_settings
        (make_intervals (points example_settings example_gap))) ! 1) = 1"
proof -
  let ?r = "flag_intervals example_settings (make_intervals (points example_settings example_gap))"
  have r: "?r = Inr (projr ?r)"
    by code_simp
  have len: "length (projr ?r) = 2"
    by code_simp
  have same: "contract (projr ?r ! 0) = contract (projr ?r ! 1)"
    by code_simp
  have gap: "load_gap_threshold example_settings
               < \<bar>msg_time_min (projr ?r ! 1) - msg_time_max (projr ?r ! 0)\<bar>"
    by code_simp
  note inst = noncontiguous_correct [OF r]
  note first = inst [THEN conjunct2, THEN conjunct2, THEN conjunct1, rule_format, of 0]
  note later = inst [THEN conjunct2, THEN conjunct2, THEN conjunct2, rule_format, of 1]
  from first len have "invalid_load_noncontiguous (projr ?r ! 0) = 0"
    by simp
  moreover from later len same gap have "invalid_load_noncontiguous (projr ?r ! 1) = 1"
    by simp
  ultimately show ?thesis
    using same gap by simp
qed

section \<open>Overlap of the loads of a contract\<close>

lemma check_overlaps_flag:
  assumes a: "a \<in> set (check_overlaps D)" and b: "b \<in> set (check_overlaps D)"
    and ne: "a \<noteq> b" and ov: "overlaps a b"
  shows "invalid_load_overlap a = 1"
proof -
  let ?hit = "\<lambda>i. list_ex (\<lambda>j. i \<noteq> j \<and> overlaps (D ! i) (D ! j)) [0..<length D]"
  have nth: "check_overlaps D ! k = (if ?hit k then (D ! k)\<lparr>invalid_load_overlap := 1\<rparr> else D ! k)"
    if "k < length D" for k
    using that by (simp add: check_overlaps_def)
  have len: "length (check_overlaps D) = length D"
    by (simp add: check_overlaps_def)
  from a len obtain i where i: "i < length D" and ai: "a = check_overlaps D ! i"
    by (metis in_set_conv_nth)
  from b len obtain j where j: "j < length D" and bj: "b = check_overlaps D ! j"
    by (metis in_set_conv_nth)
  from ne ai bj have ij: "i \<noteq> j" by auto
  have "msg_time_min a = msg_time_min (D ! i)" "msg_time_max a = msg_time_max (D ! i)"
    "msg_time_min b = msg_time_min (D ! j)" "msg_time_max b = msg_time_max (D ! j)"
    unfolding ai bj by (simp_all add: nth i j)
  with ov have "overlaps (D ! i) (D ! j)"
    by (simp add: overlaps_def)
  with ij j have "?hit i"
    by (auto simp: list_ex_iff)
  then show ?thesis
    unfolding ai by (simp add: nth i)
qed

lemma flag_overlap_flag:
  assumes a: "a \<in> set (flag_overlap W)" and b: "b \<in> set (flag_overlap W)"
    and c: "contract a = contract b" and ne: "a \<noteq> b" and ov: "overlaps a b"
  shows "invalid_load_overlap a = 1"
proof -
  let ?D = "filter (\<lambda>x. contract x = contract a) (map (\<lambda>iv. iv\<lparr>invalid_load_overlap := 0\<rparr>) W)"
  have "filter (\<lambda>y. contract y = contract a) (flag_overlap W) = check_overlaps ?D"
    unfolding flag_overlap_def
    by (rule filter_groupby_apply) (rule map_check_overlaps, simp)
  moreover from a b c have "a \<in> set (filter (\<lambda>y. contract y = contract a) (flag_overlap W))"
    and "b \<in> set (filter (\<lambda>y. contract y = contract a) (flag_overlap W))"
    by simp_all
  ultimately have "a \<in> set (check_overlaps ?D)" and "b \<in> set (check_overlaps ?D)"
    by simp_all
  then show ?thesis
    using ne ov by (rule check_overlaps_flag)
qed

lemma overlap_flagged:
  assumes ok: "flag_intervals cfg ivs = Inr out"
    and a: "a \<in> set out" and b: "b \<in> set out"
    and c: "contract a = contract b" and ne: "group_col a \<noteq> group_col b" and ov: "overlaps a b"
  shows "invalid_load_overlap a = 1"
proof -
  let ?g = "\<lambda>iv. (contract iv, group_col iv, msg_time_min iv, msg_time_max iv, invalid_load_overlap iv)"
  from ok obtain W where out: "out = flag_invalid_load (flag_duplicate (flag_noncontiguous cfg (flag_overlap W)))"
    by (auto simp: flag_intervals_def split: sum.splits)
  have "map ?g out = map ?g (flag_duplicate (flag_noncontiguous cfg (flag_overlap W)))"
    unfolding out by (rule map_flag_invalid_load) simp
  also have "\<dots> = map ?g (sort_key contract (flag_noncontiguous cfg (flag_overlap W)))"
    by (rule map_flag_duplicate) simp_all
  finally have "set (map ?g out) = set (map ?g (flag_noncontiguous cfg (flag_overlap W)))"
    by simp
  also have "map ?g (flag_noncontiguous cfg (flag_overlap W)) = map ?g (sort_key interval_key (flag_overlap W))"
    by (rule map_flag_noncontiguous) simp_all
  finally have eq: "?g ` set out = ?g ` set (flag_overlap W)"
    by simp
  from a eq obtain a' where a': "a' \<in> set (flag_overlap W)" and ga: "?g a' = ?g a"
    by (metis (no_types, lifting) imageE image_eqI)
  from b eq obtain b' where b': "b' \<in> set (flag_overlap W)" and gb: "?g b' = ?g b"
    by (metis (no_types, lifting) imageE image_eqI)
  from ga gb c ne ov have "contract a' = contract b'" "a' \<noteq> b'" "overlaps a' b'"
    by (auto simp: overlaps_def)
  with a' b' have "invalid_load_overlap a' = 1"
    by (intro flag_overlap_flag)
  with ga show ?thesis by simp
qed

lemma group_bounds_at_change:
  fixes grp :: "'p grow list"
  assumes st: "sorted (map msg_time grp)" and sg: "sorted (map group_number grp)"
    and i: "Suc i < length grp" and change: "group_number (grp ! Suc i) \<noteq> group_number (grp ! i)"
  shows "Max (set (map msg_time (filter (\<lambda>r. group_number r = group_number (grp ! i)) grp)))
           = msg_time (grp ! i)"
    and "Min (set (map msg_time (filter (\<lambda>r. group_number r = group_number (grp ! Suc i)) grp)))
           = msg_time (grp ! Suc i)"
proof -
  from sg i have le: "group_number (grp ! i) \<le> group_number (grp ! Suc i)"
    by (simp add: sorted_iff_nth_mono)
  with change have lt: "group_number (grp ! i) < group_number (grp ! Suc i)"
    by simp
  have gmono: "group_number (grp ! j) \<le> group_number (grp ! k)" if "j \<le> k" "k < length grp" for j k
    using sg that by (simp add: sorted_iff_nth_mono)
  have tmono: "msg_time (grp ! j) \<le> msg_time (grp ! k)" if "j \<le> k" "k < length grp" for j k
    using st that by (simp add: sorted_iff_nth_mono)
  show "Max (set (map msg_time (filter (\<lambda>r. group_number r = group_number (grp ! i)) grp)))
           = msg_time (grp ! i)"
  proof (rule Max_eqI)
    show "finite (set (map msg_time (filter (\<lambda>r. group_number r = group_number (grp ! i)) grp)))"
      by simp
    show "msg_time (grp ! i) \<in> set (map msg_time (filter (\<lambda>r. group_number r = group_number (grp ! i)) grp))"
      using i by auto
    fix t assume "t \<in> set (map msg_time (filter (\<lambda>r. group_number r = group_number (grp ! i)) grp))"
    then obtain r where r: "r \<in> set grp" "group_number r = group_number (grp ! i)" "t = msg_time r"
      by auto
    then obtain k where k: "k < length grp" "r = grp ! k"
      by (metis in_set_conv_nth)
    have "k \<le> i"
    proof (rule ccontr)
      assume "\<not> k \<le> i"
      then have "Suc i \<le> k" by simp
      from gmono [OF this k(1)] lt r(2) k(2) show False by simp
    qed
    from tmono [OF this] i r(3) k(2) show "t \<le> msg_time (grp ! i)" by simp
  qed
  show "Min (set (map msg_time (filter (\<lambda>r. group_number r = group_number (grp ! Suc i)) grp)))
           = msg_time (grp ! Suc i)"
  proof (rule Min_eqI)
    show "finite (set (map msg_time (filter (\<lambda>r. group_number r = group_number (grp ! Suc i)) grp)))"
      by simp
    show "msg_time (grp ! Suc i) \<in> set (map msg_time (filter (\<lambda>r. group_number r = group_number (grp ! Suc i)) grp))"
      using i by auto
    fix t assume "t \<in> set (map msg_time (filter (\<lambda>r. group_number r = group_number (grp ! Suc i)) grp))"
    then obtain r where r: "r \<in> set grp" "group_number r = group_number (grp ! Suc i)" "t = msg_time r"
      by auto
    then obtain k where k: "k < length grp" "r = grp ! k"
      by (metis in_set_conv_nth)
    have "Suc i \<le> k"
    proof (rule ccontr)
      assume "\<not> Suc i \<le> k"
      then have "k \<le> i" by simp
      from gmono [OF this] i lt r(2) k(2) show False by simp
    qed
    from tmono [OF this k(1)] r(3) k(2) show "msg_time (grp ! Suc i) \<le> t" by simp
  qed
qed

lemma make_intervals_member:
  assumes "I \<in> set (make_intervals pts)"
  shows "I = make_interval (contract I, group_col I)
               (filter (\<lambda>r. contract_id r = contract I \<and> group_number r = group_col I) pts)"
    and "\<exists>r\<in>set pts. contract_id r = contract I \<and> group_number r = group_col I"
  using assms by (auto simp: make_intervals_def group_key_def)

lemma make_intervals_has:
  assumes "r \<in> set pts"
  shows "\<exists>I\<in>set (make_intervals pts). contract I = contract_id r \<and> group_col I = group_number r"
  using interval_of_point [OF assms] by blast

lemma intervals_in_flagged:
  assumes "flag_intervals cfg ivs = Inr out"
  shows "(\<lambda>iv. (contract iv, group_col iv, msg_time_min iv, msg_time_max iv)) ` set out
       = (\<lambda>iv. (contract iv, group_col iv, msg_time_min iv, msg_time_max iv)) ` set ivs"
proof -
  let ?agg = "\<lambda>iv. (contract iv, group_col iv, load iv, msg_time_min iv, msg_time_max iv,
                     time_delta_avg iv, total_points iv, total_time iv)"
  let ?p = "\<lambda>(c :: int, g :: nat, l :: int option, lo :: int, hi :: int, a :: int option, n :: nat, d :: int). (c, g, lo, hi)"
  from flag_intervals_keeps_intervals [OF assms] have "set_mset (mset (map ?agg out)) = set_mset (mset (map ?agg ivs))"
    by (rule arg_cong)
  then have "?agg ` set out = ?agg ` set ivs"
    by simp
  then have "?p ` ?agg ` set out = ?p ` ?agg ` set ivs"
    by (rule arg_cong)
  then show ?thesis
    by (simp add: image_image)
qed

lemma tie_intervals:
  fixes df :: "'p row list" and cfg :: settings and c :: int
  defines "grp \<equiv> filter (\<lambda>r. contract_id r = c) (points cfg df)"
  assumes i: "Suc i < length grp"
    and change: "group_number (grp ! Suc i) \<noteq> group_number (grp ! i)"
    and I: "I \<in> set (make_intervals (points cfg df))" and cI: "contract I = c"
  shows "group_col I = group_number (grp ! i) \<Longrightarrow>
           msg_time_min I \<le> msg_time (grp ! i) \<and> msg_time_max I = msg_time (grp ! i)"
    and "group_col I = group_number (grp ! Suc i) \<Longrightarrow>
           msg_time_min I = msg_time (grp ! Suc i) \<and> msg_time (grp ! Suc i) \<le> msg_time_max I"
proof -
  have st: "sorted (map msg_time grp)" and sg: "sorted (map group_number grp)"
    unfolding grp_def by (rule contract_segmentation)+
  have members: "filter (\<lambda>r. contract_id r = c \<and> group_number r = g) (points cfg df)
                   = filter (\<lambda>r. group_number r = g) grp" for g
    unfolding grp_def by (simp add: conj_commute)
  note bounds = group_bounds_at_change [OF st sg i change]
  {
    assume g: "group_col I = group_number (grp ! i)"
    let ?M = "filter (\<lambda>r. group_number r = group_number (grp ! i)) grp"
    from make_intervals_member(1) [OF I] cI g members
    have "I = make_interval (c, group_number (grp ! i)) ?M"
      by simp
    then have lo: "msg_time_min I = Min (set (map msg_time ?M))"
      and hi: "msg_time_max I = Max (set (map msg_time ?M))"
      by (metis make_interval_sel(4), metis make_interval_sel(5))
    have "msg_time (grp ! i) \<in> set (map msg_time ?M)"
      using i by auto
    then have "Min (set (map msg_time ?M)) \<le> msg_time (grp ! i)"
      by (intro Min_le) simp_all
    with lo hi bounds(1)
    show "msg_time_min I \<le> msg_time (grp ! i) \<and> msg_time_max I = msg_time (grp ! i)"
      by simp
  }
  {
    assume g: "group_col I = group_number (grp ! Suc i)"
    let ?M = "filter (\<lambda>r. group_number r = group_number (grp ! Suc i)) grp"
    from make_intervals_member(1) [OF I] cI g members
    have "I = make_interval (c, group_number (grp ! Suc i)) ?M"
      by simp
    then have lo: "msg_time_min I = Min (set (map msg_time ?M))"
      and hi: "msg_time_max I = Max (set (map msg_time ?M))"
      by (metis make_interval_sel(4), metis make_interval_sel(5))
    have "msg_time (grp ! Suc i) \<in> set (map msg_time ?M)"
      using i by auto
    then have "msg_time (grp ! Suc i) \<le> Max (set (map msg_time ?M))"
      by (intro Max_ge) simp_all
    with lo hi bounds(2)
    show "msg_time_min I = msg_time (grp ! Suc i) \<and> msg_time (grp ! Suc i) \<le> msg_time_max I"
      by simp
  }
qed

text \<open>
  C10. Let \<open>grp\<close> be the rows of one contract in time order, and let two neighbours in
  \<open>grp\<close> lie in different groups and carry the same timestamp. Then the flagged frame
  holds the interval of either group; the earlier one ends and the later one starts at that
  timestamp, and both have \<^verbatim>\<open>invalid_load_overlap\<close> = 1, although no record lies in both
  groups.
\<close>

theorem boundary_tie_overlap:
  fixes df :: "'p row list" and cfg :: settings and c :: int
  defines "grp \<equiv> filter (\<lambda>r. contract_id r = c) (points cfg df)"
  assumes ok: "flag_intervals cfg (make_intervals (points cfg df)) = Inr out"
    and i: "Suc i < length grp"
    and change: "group_number (grp ! Suc i) \<noteq> group_number (grp ! i)"
    and tie: "msg_time (grp ! Suc i) = msg_time (grp ! i)"
  shows "(\<exists>A\<in>set out. contract A = c \<and> group_col A = group_number (grp ! i))
       \<and> (\<exists>B\<in>set out. contract B = c \<and> group_col B = group_number (grp ! Suc i))
       \<and> (\<forall>A\<in>set out. \<forall>B\<in>set out.
             contract A = c \<and> group_col A = group_number (grp ! i)
             \<and> contract B = c \<and> group_col B = group_number (grp ! Suc i) \<longrightarrow>
               msg_time_max A = msg_time (grp ! i) \<and> msg_time_min B = msg_time (grp ! i)
               \<and> invalid_load_overlap A = 1 \<and> invalid_load_overlap B = 1)
       \<and> set (filter (\<lambda>r. group_number r = group_number (grp ! i)) grp)
           \<inter> set (filter (\<lambda>r. group_number r = group_number (grp ! Suc i)) grp) = {}"
proof -
  let ?h = "\<lambda>iv. (contract iv, group_col iv, msg_time_min iv, msg_time_max iv)"
  let ?ivs = "make_intervals (points cfg df)"
  note same = intervals_in_flagged [OF ok]
  have mem: "grp ! i \<in> set (points cfg df)" "grp ! Suc i \<in> set (points cfg df)"
    "contract_id (grp ! i) = c" "contract_id (grp ! Suc i) = c"
    using i nth_mem [of i grp] nth_mem [of "Suc i" grp] unfolding grp_def by auto
  from make_intervals_has [OF mem(1)] mem(3)
  obtain I where "I \<in> set ?ivs" "contract I = c" "group_col I = group_number (grp ! i)"
    by auto
  moreover then have "?h I \<in> ?h ` set out"
    unfolding same by blast
  ultimately have exA: "\<exists>A\<in>set out. contract A = c \<and> group_col A = group_number (grp ! i)"
    by auto
  from make_intervals_has [OF mem(2)] mem(4)
  obtain J where "J \<in> set ?ivs" "contract J = c" "group_col J = group_number (grp ! Suc i)"
    by auto
  moreover then have "?h J \<in> ?h ` set out"
    unfolding same by blast
  ultimately have exB: "\<exists>B\<in>set out. contract B = c \<and> group_col B = group_number (grp ! Suc i)"
    by auto
  have "msg_time_max A = msg_time (grp ! i) \<and> msg_time_min B = msg_time (grp ! i)
               \<and> invalid_load_overlap A = 1 \<and> invalid_load_overlap B = 1"
    if A: "A \<in> set out" and B: "B \<in> set out"
    and keys: "contract A = c \<and> group_col A = group_number (grp ! i)
             \<and> contract B = c \<and> group_col B = group_number (grp ! Suc i)" for A B
  proof -
  from A same obtain I' where I': "I' \<in> set ?ivs" "?h I' = ?h A"
    by (metis (no_types, lifting) imageE image_eqI)
  from B same obtain J' where J': "J' \<in> set ?ivs" "?h J' = ?h B"
    by (metis (no_types, lifting) imageE image_eqI)
  from I' keys have kI: "contract I' = c" "group_col I' = group_number (grp ! i)"
    by simp_all
  from J' keys have kJ: "contract J' = c" "group_col J' = group_number (grp ! Suc i)"
    by simp_all
  from tie_intervals(1) [OF i [unfolded grp_def] change [unfolded grp_def] I'(1) kI(1)] kI(2) I'(2)
  have a: "msg_time_min A \<le> msg_time (grp ! i)" "msg_time_max A = msg_time (grp ! i)"
    unfolding grp_def by simp_all
  from tie_intervals(2) [OF i [unfolded grp_def] change [unfolded grp_def] J'(1) kJ(1)] kJ(2) J'(2) tie
  have b: "msg_time_min B = msg_time (grp ! i)" "msg_time (grp ! i) \<le> msg_time_max B"
    unfolding grp_def by simp_all
  from a b have "overlaps A B" and "overlaps B A"
    by (simp_all add: overlaps_def)
  moreover from keys change have "group_col A \<noteq> group_col B" and "contract A = contract B"
    by simp_all
  ultimately have "invalid_load_overlap A = 1" and "invalid_load_overlap B = 1"
    using overlap_flagged [OF ok A B] overlap_flagged [OF ok B A] by simp_all
  with a b
  show "msg_time_max A = msg_time (grp ! i) \<and> msg_time_min B = msg_time (grp ! i)
               \<and> invalid_load_overlap A = 1 \<and> invalid_load_overlap B = 1"
    by simp
  qed
  moreover have "set (filter (\<lambda>r. group_number r = group_number (grp ! i)) grp)
           \<inter> set (filter (\<lambda>r. group_number r = group_number (grp ! Suc i)) grp) = {}"
    using change by auto
  ultimately show ?thesis
    using exA exB by blast
qed

theorem boundary_tie_overlap_witness:
  "Suc 1 < length (filter (\<lambda>r. contract_id r = 7) (points example_settings example_tie))
   \<and> group_number (filter (\<lambda>r. contract_id r = 7) (points example_settings example_tie) ! Suc 1)
       \<noteq> group_number (filter (\<lambda>r. contract_id r = 7) (points example_settings example_tie) ! 1)
   \<and> msg_time (filter (\<lambda>r. contract_id r = 7) (points example_settings example_tie) ! Suc 1)
       = msg_time (filter (\<lambda>r. contract_id r = 7) (points example_settings example_tie) ! 1)
   \<and> msg_time_max (projr (flag_intervals example_settings
         (make_intervals (points example_settings example_tie))) ! 0) = 5
   \<and> msg_time_min (projr (flag_intervals example_settings
         (make_intervals (points example_settings example_tie))) ! 1) = 5
   \<and> invalid_load_overlap (projr (flag_intervals example_settings
         (make_intervals (points example_settings example_tie))) ! 0) = 1
   \<and> invalid_load_overlap (projr (flag_intervals example_settings
         (make_intervals (points example_settings example_tie))) ! 1) = 1"
proof -
  let ?grp = "filter (\<lambda>r. contract_id r = 7) (points example_settings example_tie)"
  let ?r = "flag_intervals example_settings (make_intervals (points example_settings example_tie))"
  have r: "?r = Inr (projr ?r)"
    by code_simp
  have i: "Suc 1 < length ?grp"
    by code_simp
  have change: "group_number (?grp ! Suc 1) \<noteq> group_number (?grp ! 1)"
    by code_simp
  have tie: "msg_time (?grp ! Suc 1) = msg_time (?grp ! 1)"
    by code_simp
  have t: "msg_time (?grp ! 1) = 5"
    by code_simp
  have len: "length (projr ?r) = 2"
    by code_simp
  have keys: "contract (projr ?r ! 0) = 7 \<and> group_col (projr ?r ! 0) = group_number (?grp ! 1)
      \<and> contract (projr ?r ! 1) = 7 \<and> group_col (projr ?r ! 1) = group_number (?grp ! Suc 1)"
    by code_simp
  from len have m: "projr ?r ! 0 \<in> set (projr ?r)" "projr ?r ! 1 \<in> set (projr ?r)"
    by simp_all
  note inst = boundary_tie_overlap [OF r i change tie]
  from inst [THEN conjunct2, THEN conjunct2, THEN conjunct1, rule_format, OF m keys] t
  have "msg_time_max (projr ?r ! 0) = 5 \<and> msg_time_min (projr ?r ! 1) = 5
        \<and> invalid_load_overlap (projr ?r ! 0) = 1 \<and> invalid_load_overlap (projr ?r ! 1) = 1"
    by simp
  with i change tie show ?thesis
    by simp
qed

section \<open>The frame that is written out\<close>

lemma to_datetime_Inr:
  assumes "to_datetime raw = Inr df"
  shows "df = map (\<lambda>r. \<lparr>contract_id = csv_contract_id r, msg_time = the (csv_msg_time r),
                          load_number = csv_load_number r, payload = csv_payload r\<rparr>) raw"
    and "\<forall>r\<in>set raw. csv_msg_time r \<noteq> None"
  using assms by (auto simp: to_datetime_def list_all_iff split: if_splits)

lemma length_points: "length (points cfg df) = length df"
proof -
  have "size (mset (map row.truncate (points cfg df))) = size (mset df)"
    by (simp only: mset_truncate_points)
  then show ?thesis by simp
qed

lemma truncate_backfill:
  "map row.truncate (backfill pts gi) = sort_values_msg_time (map row.truncate pts)"
proof -
  have "map row.truncate (backfill pts gi) = map row.truncate (sort_values_msg_time pts)"
    by (simp add: backfill_def drop_columns_def merge_asof_def row.truncate_def comp_def)
  then show ?thesis
    by (simp only: truncate_sort)
qed

lemma asof_lookup_Some:
  assumes "kv \<in> set right" and "fst kv \<le> t"
  shows "asof_lookup right t \<noteq> None"
proof -
  from assms have "kv \<in> set (filter (\<lambda>kv. fst kv \<le> t) right)"
    by simp
  then have "filter (\<lambda>kv. fst kv \<le> t) right \<noteq> []"
    by (metis empty_iff empty_set)
  then show ?thesis
    by (simp add: asof_lookup_def split: list.splits)
qed

lemma own_interval_starts_before:
  assumes ok: "flag_intervals cfg (make_intervals pts) = Inr gi" and r: "r \<in> set pts"
  shows "\<exists>iv\<in>set gi. msg_time_min iv \<le> msg_time r"
proof -
  let ?M = "filter (\<lambda>x. group_key x = group_key r) pts"
  let ?I = "make_interval (group_key r) ?M"
  have I: "?I \<in> set (make_intervals pts)"
    using r by (auto simp: make_intervals_def)
  from r have "msg_time r \<in> set (map msg_time ?M)"
    by simp
  then have "Min (set (map msg_time ?M)) \<le> msg_time r"
    by (intro Min_le) simp_all
  then have le: "msg_time_min ?I \<le> msg_time r"
    by (simp only: make_interval_sel)
  let ?h = "\<lambda>iv. (contract iv, group_col iv, msg_time_min iv, msg_time_max iv)"
  from I have "?h ?I \<in> ?h ` set gi"
    unfolding intervals_in_flagged [OF ok] by (rule imageI)
  then obtain iv where "iv \<in> set gi" "?h iv = ?h ?I"
    by (metis (no_types, lifting) imageE)
  with le show ?thesis
    by (metis (no_types, lifting) Pair_inject)
qed

lemma flags_backfill:
  assumes ok: "flag_intervals cfg (make_intervals pts) = Inr gi" and "row \<in> set (backfill pts gi)"
  shows "flags row \<noteq> None"
proof -
  from assms(2) obtain r where r: "r \<in> set pts"
    and fl: "flags row = asof_lookup (group_intervals_out gi) (msg_time r)"
    by (auto simp: backfill_def drop_columns_def merge_asof_def sort_values_msg_time_def)
  from own_interval_starts_before [OF ok r] obtain iv where "iv \<in> set gi" "msg_time_min iv \<le> msg_time r"
    by blast
  then have "(msg_time_min iv, flag_columns.truncate iv) \<in> set (group_intervals_out gi)"
    and "fst (msg_time_min iv, flag_columns.truncate iv) \<le> msg_time r"
    by (simp_all add: group_intervals_out_def)
  then show ?thesis
    unfolding fl by (rule asof_lookup_Some)
qed

text \<open>
  C5. When the notebook reaches its last cell, the frame handed to \<^verbatim>\<open>to_csv\<close> has one row
  per row of the input; stripped of the flag columns its rows are the parsed input rows,
  payload included, in time order; every row carries values in the ten flag columns. The
  row type of the frame has the input columns and the ten flag columns only:
  \<^verbatim>\<open>group_number\<close> and \<^verbatim>\<open>time_delta\<close> are dropped.
\<close>

theorem output_frame:
  fixes raw :: "'p csv_row list"
  assumes "run cfg raw = Inr out"
  shows "length out = length raw
       \<and> mset (map row.truncate out)
           = mset (map (\<lambda>r. \<lparr>contract_id = csv_contract_id r, msg_time = the (csv_msg_time r),
                                load_number = csv_load_number r, payload = csv_payload r\<rparr>) raw)
       \<and> sorted (map msg_time out)
       \<and> (\<forall>row\<in>set out. flags row \<noteq> None)"
proof -
  from assms obtain df gi where df: "to_datetime raw = Inr df"
    and gi: "flag_intervals cfg (make_intervals (points cfg df)) = Inr gi"
    and out: "out = backfill (points cfg df) gi"
    by (auto simp: run_def split: sum.splits if_splits)
  have tr: "map row.truncate out = sort_values_msg_time (map row.truncate (points cfg df))"
    unfolding out by (rule truncate_backfill)
  then have "mset (map row.truncate out) = mset (map row.truncate (points cfg df))"
    by (simp add: sort_values_msg_time_def)
  then have m: "mset (map row.truncate out) = mset df"
    by (simp only: mset_truncate_points)
  then have "size (mset (map row.truncate out)) = size (mset df)"
    by (rule arg_cong)
  then have len: "length out = length raw"
    using to_datetime_Inr(1) [OF df] by simp
  have "map msg_time out = map msg_time (map row.truncate out)"
    by (simp add: row.truncate_def)
  also have "\<dots> = map msg_time (sort_key msg_time (map row.truncate (points cfg df)))"
    by (simp only: tr sort_values_msg_time_def)
  finally have srt: "sorted (map msg_time out)"
    by simp
  have "\<forall>row\<in>set out. flags row \<noteq> None"
    unfolding out using flags_backfill [OF gi] by blast
  with len m srt show ?thesis
    using to_datetime_Inr(1) [OF df] by simp
qed


theorem output_frame_witness:
  "length (projr (run example_settings example_two_contracts_csv)) = length example_two_contracts_csv
   \<and> sorted (map msg_time (projr (run example_settings example_two_contracts_csv)))
   \<and> flags (projr (run example_settings example_two_contracts_csv) ! 2) \<noteq> None"
proof -
  let ?r = "run example_settings example_two_contracts_csv"
  have r: "?r = Inr (projr ?r)"
    by code_simp
  have len: "length (projr ?r) = 3"
    by code_simp
  note inst = output_frame [OF r]
  from len have "projr ?r ! 2 \<in> set (projr ?r)"
    by simp
  with inst have "flags (projr ?r ! 2) \<noteq> None"
    by blast
  with inst show ?thesis
    by simp
qed


section \<open>Timestamps that cannot be parsed\<close>

text \<open>
  C8, as the notebook behaves. If one timestamp of the input cannot be parsed, the run
  ends with the parse error of \<^verbatim>\<open>pd.to_datetime\<close> and produces no frame, whatever the other
  rows are.
\<close>

theorem parse_failure_aborts:
  fixes raw :: "'p csv_row list"
  shows "(\<exists>r\<in>set raw. csv_msg_time r = None) \<longrightarrow> run cfg raw = Inl ParseError"
proof
  assume "\<exists>r\<in>set raw. csv_msg_time r = None"
  then have "to_datetime raw = Inl ParseError"
    by (auto simp: to_datetime_def list_all_iff)
  then show "run cfg raw = Inl ParseError"
    by (simp add: run_def)
qed

theorem parse_failure_aborts_witness:
  "csv_msg_time (example_unparseable ! 2) = None
   \<and> run example_settings example_unparseable = Inl ParseError"
proof -
  have bad: "csv_msg_time (example_unparseable ! 2) = None"
    by code_simp
  have "example_unparseable ! 2 \<in> set example_unparseable"
    by (simp add: example_unparseable_def)
  with bad have "\<exists>r\<in>set example_unparseable. csv_msg_time r = None"
    by blast
  with parse_failure_aborts [of example_unparseable example_settings]
  have "run example_settings example_unparseable = Inl ParseError"
    by blast
  with bad show ?thesis
    by simp
qed

text \<open>
  C8, as stated, fails: the first two rows of this input have timestamps that parse, the
  third has not, and the run ends with the parse error instead of going on with the first
  two.
\<close>

theorem parse_failure_counterexample:
  "csv_msg_time (example_unparseable ! 0) = Some 0
   \<and> csv_msg_time (example_unparseable ! 1) = Some 5
   \<and> csv_msg_time (example_unparseable ! 2) = None
   \<and> run example_settings example_unparseable = Inl ParseError"
  by code_simp

section \<open>Backfill across contracts\<close>

text \<open>
  C2. Contract 1 has records at times 0 and 10, contract 2 one record at time 5, and
  \<^verbatim>\<open>point_threshold_min\<close> is 2. The interval of contract 1 has two points and is not
  flagged; the interval of contract 2 has one point and is flagged
  \<^verbatim>\<open>invalid_load_point_count_low\<close>, hence \<^verbatim>\<open>invalid_load\<close>. The join on \<^verbatim>\<open>msg_time\<close> alone gives the record of
  contract 1 at time 10 the flags of the interval of contract 2, whose key 5 is the greatest
  key below 10.
\<close>

theorem backfill_crosses_contracts:
  "to_datetime example_two_contracts_csv = Inr example_two_contracts
   \<and> map (\<lambda>r. (contract_id r, msg_time r, group_number r)) (points example_settings example_two_contracts)
     = [(1, 0, 1), (1, 10, 1), (2, 5, 1)]
   \<and> map_sum id (map (\<lambda>iv. (contract iv, group_col iv, msg_time_min iv, total_points iv,
                             invalid_load_point_count_low iv, invalid_load iv)))
       (flag_intervals example_settings (make_intervals (points example_settings example_two_contracts)))
     = Inr [(1, 1, 0, 2, 0, 0), (2, 1, 5, 1, 1, 1)]
   \<and> map_sum id (map (\<lambda>row. (contract_id row, msg_time row,
                              map_option invalid_load_point_count_low (flags row),
                              map_option invalid_load (flags row))))
       (run example_settings example_two_contracts_csv)
     = Inr [(1, 0, Some 0, Some 0), (2, 5, Some 1, Some 1), (1, 10, Some 1, Some 1)]"
  by code_simp

end
